theory Spec2Isabelle
  imports Complex_Main "HOL-Library.Log_Nat"
begin

section \<open>Strings and dictionaries of the source language\<close>

text \<open>
  A Python \<open>str\<close> is a sequence of Unicode code points, and \<open>len\<close> counts code
  points. The alphabet of the program is Cyrillic, outside the 8-bit \<open>char\<close> of HOL,
  so a string is a list of code points (the values of Python's \<open>ord\<close>). A single
  character is a string of length one, as in Python.
\<close>

type_synonym codepoint = nat
type_synonym ustring = "codepoint list"

text \<open>
  A \<open>dict\<close> keeps its keys in insertion order and holds each key once: it is an
  association list whose keys are distinct. \<open>d[k] += 1\<close> on a
  \<open>defaultdict(int)\<close> adds one to the entry of \<open>k\<close> in place, or appends the
  entry \<open>(k, 1)\<close> when \<open>k\<close> is new.
\<close>

type_synonym ('k, 'v) dict = "('k \<times> 'v) list"

fun dict_incr :: "'k \<Rightarrow> ('k, int) dict \<Rightarrow> ('k, int) dict" where
  "dict_incr k [] = [(k, 1)]"
| "dict_incr k ((k', v) # d) =
     (if k = k' then (k', v + 1) # d else (k', v) # dict_incr k d)"

text \<open>
  \<open>frequencies[context][next_char] += 1\<close> on a
  \<open>defaultdict(lambda: defaultdict(int))\<close>: the row of the context is created
  empty when it is missing, then the counter of the symbol is incremented inside it.
\<close>

fun dict_incr2 :: "'k \<Rightarrow> 's \<Rightarrow> ('k, ('s, int) dict) dict \<Rightarrow> ('k, ('s, int) dict) dict" where
  "dict_incr2 k s [] = [(k, dict_incr s [])]"
| "dict_incr2 k s ((k', row) # d) =
     (if k = k' then (k', dict_incr s row) # d else (k', row) # dict_incr2 k s d)"

text \<open>\<open>sum(d.values())\<close>.\<close>

definition dict_total :: "('k, int) dict \<Rightarrow> int" where
  "dict_total d = sum_list (map snd d)"

section \<open>Floating-point numbers of the source language\<close>

text \<open>
  A Python \<open>float\<close> is an IEEE 754 binary64 number: an integer significand of at
  most 53 bits times a power of two. The model keeps its value, a rational number, so
  that a comparison of floats is the comparison of their values. An arithmetic
  operation of the runtime yields the exact result rounded to the nearest float, a tie
  going to the even significand.

  \<open>round_half_even\<close> rounds to the nearest integer, \<open>floor_log2 x\<close> is the
  exponent \<open>l\<close> with \<open>2^l \<le> x < 2^(l+1)\<close> of a positive \<open>x\<close>, and
  \<open>round_to_double\<close> rounds to 53 significant bits. The range of the exponent is not
  modelled (no infinity, no subnormal number): the numbers of this program are
  quotients of counts read from a \<open>BIGINT\<close> column, which are below \<open>2^63\<close>, sums
  of such quotients, and products of a sum with a random number that is a multiple of
  \<open>2^-53\<close>.
\<close>

definition round_half_even :: "rat \<Rightarrow> int" where
  "round_half_even q =
     (let f = \<lfloor>q\<rfloor>; r = q - of_int f
      in if r < 1 / 2 then f else if 1 / 2 < r then f + 1 else if even f then f else f + 1)"

definition floor_log2 :: "rat \<Rightarrow> int" where
  "floor_log2 x =
     (case quotient_of x of (a, b) \<Rightarrow>
        let d = bitlen a - bitlen b in if 2 powi d \<le> x then d else d - 1)"

definition round_to_double :: "rat \<Rightarrow> rat" where
  "round_to_double x =
     (if x = 0 then 0
      else let e = floor_log2 \<bar>x\<bar> - 52;
               m = round_half_even (\<bar>x\<bar> / 2 powi e)
           in sgn x * of_int m * 2 powi e)"

text \<open>
  \<open>a / b\<close> on two \<open>int\<close> (for \<open>b \<noteq> 0\<close>; the source divides by a positive
  total only), \<open>x + y\<close> and \<open>x * y\<close> on two \<open>float\<close>.
\<close>

definition truediv :: "int \<Rightarrow> int \<Rightarrow> rat" where
  "truediv a b = round_to_double (of_int a / of_int b)"

definition float_add :: "rat \<Rightarrow> rat \<Rightarrow> rat" where
  "float_add x y = round_to_double (x + y)"

definition float_mul :: "rat \<Rightarrow> rat \<Rightarrow> rat" where
  "float_mul x y = round_to_double (x * y)"

section \<open>text_processor.py\<close>

text \<open>
  \<open>ALLOWED_CHARS = set('...')\<close>: the 33 lowercase Russian letters (in the order of
  the source literal, with U+0451 after U+0435), then space, comma, full stop,
  exclamation mark and question mark.
\<close>

definition ALLOWED_CHARS :: "codepoint set" where
  "ALLOWED_CHARS = set
     [1072, 1073, 1074, 1075, 1076, 1077, 1105, 1078, 1079, 1080, 1081, 1082,
      1083, 1084, 1085, 1086, 1087, 1088, 1089, 1090, 1091, 1092, 1093, 1094,
      1095, 1096, 1097, 1098, 1099, 1100, 1101, 1102, 1103,
      32, 44, 46, 33, 63]"

text \<open>
  The code points that \<open>\s\<close> of \<open>re\<close> (on a \<open>str\<close> pattern) and
  \<open>str.strip()\<close> treat as whitespace: both ask CPython's
  \<open>Py_UNICODE_ISSPACE\<close>.
\<close>

definition py_isspace :: "codepoint \<Rightarrow> bool" where
  "py_isspace c \<longleftrightarrow> c \<in> set
     [9, 10, 11, 12, 13, 28, 29, 30, 31, 32, 133, 160, 5760,
      8192, 8193, 8194, 8195, 8196, 8197, 8198, 8199, 8200, 8201, 8202,
      8232, 8233, 8239, 8287, 12288]"

text \<open>
  \<open>''.join(c if c in ALLOWED_CHARS else ' ' for c in text)\<close>.
\<close>

definition replace_disallowed :: "ustring \<Rightarrow> ustring" where
  "replace_disallowed text = map (\<lambda>c. if c \<in> ALLOWED_CHARS then c else 32) text"

text \<open>
  \<open>re.sub(r'\s+', ' ', text)\<close>: scanning from the left, every maximal run of
  whitespace is replaced by one space.
\<close>

function re_sub_spaces :: "ustring \<Rightarrow> ustring" where
  "re_sub_spaces [] = []"
| "re_sub_spaces (c # cs) =
     (if py_isspace c then 32 # re_sub_spaces (dropWhile py_isspace cs)
      else c # re_sub_spaces cs)"
  by pat_completeness auto
termination
  by (relation "measure length") (auto simp: le_imp_less_Suc length_dropWhile_le)

text \<open>\<open>str.strip()\<close>: whitespace is removed at both ends.\<close>

definition strip :: "ustring \<Rightarrow> ustring" where
  "strip s = rev (dropWhile py_isspace (rev (dropWhile py_isspace s)))"

text \<open>
  \<open>normalize_text\<close>. \<open>str.lower\<close> is the Unicode lowercase mapping of the
  Python runtime (it works on the whole string: some code points lowercase to several,
  and one depends on its neighbours), so it is a parameter \<open>lower\<close> of the model.
\<close>

definition normalize_text :: "(ustring \<Rightarrow> ustring) \<Rightarrow> ustring \<Rightarrow> ustring" where
  "normalize_text lower text =
     strip (re_sub_spaces (replace_disallowed (lower text)))"

text \<open>
  The lowercase mapping restricted to the code points that matter to this program: the
  Basic Latin capitals and the 33 Russian capitals (U+0410..U+042F and U+0401); every
  other code point is left as it is. It is used for concrete runs only.
\<close>

definition lower_cp :: "codepoint \<Rightarrow> codepoint" where
  "lower_cp c =
     (if 65 \<le> c \<and> c \<le> 90 then c + 32
      else if 1040 \<le> c \<and> c \<le> 1071 then c + 32
      else if c = 1025 then 1105
      else c)"

definition lower_ru :: "ustring \<Rightarrow> ustring" where
  "lower_ru text = map lower_cp text"

text \<open>
  \<open>count_overall_frequencies\<close>: one pass over the text; a character outside the
  alphabet is skipped.
\<close>

definition count_overall_frequencies :: "ustring \<Rightarrow> (ustring, int) dict" where
  "count_overall_frequencies text =
     foldl (\<lambda>frequencies char.
              if char \<in> ALLOWED_CHARS then dict_incr [char] frequencies else frequencies)
       [] text"

text \<open>
  \<open>count_markov_frequencies(text, n)\<close>, for an order \<open>n \<ge> 0\<close> (the source
  documents 1 to 13). \<open>range(len(text) - n)\<close> is empty when \<open>n\<close> is not smaller
  than the length, as the truncating subtraction of \<open>nat\<close> gives; inside the range
  \<open>text[i + n]\<close> is always in bounds.
\<close>

definition count_markov_frequencies ::
    "ustring \<Rightarrow> nat \<Rightarrow> (ustring, (ustring, int) dict) dict" where
  "count_markov_frequencies text n =
     foldl (\<lambda>frequencies i.
              let context = take n (drop i text);
                  next_char = text ! (i + n)
              in if (\<forall>c \<in> set context. c \<in> ALLOWED_CHARS) \<and> next_char \<in> ALLOWED_CHARS
                 then dict_incr2 context [next_char] frequencies
                 else frequencies)
       [] [0 ..< length text - n]"

section \<open>database.py\<close>

text \<open>
  The exceptions the model distinguishes: an error of the storage engine
  (\<open>psycopg2.Error\<close>), a failure of a file operation, and the two errors
  \<open>random.choices\<close> raises.
\<close>

datatype py_error = DatabaseError | OSError | ValueError | IndexError

text \<open>
  \<open>create_tables\<close> declares \<open>overall_frequencies (symbol, frequency)\<close> and, for
  \<open>n\<close> in \<open>range(1, 14)\<close>, \<open>markov_n (context, symbol, frequency)\<close>. A table is
  the list of its rows in insertion order.
\<close>

type_synonym markov_row = "ustring \<times> ustring \<times> int"

record tables =
  overall_frequencies :: "(ustring \<times> int) list"
  markov :: "nat \<Rightarrow> markov_row list"

text \<open>
  A connection with \<open>autocommit = False\<close>: \<open>committed\<close> is what is persisted,
  \<open>working\<close> is what the open transaction sees (statements of the same connection
  read and write it). Every statement may fail; when it does is not in the program's
  hands, so the connection carries the schedule of the failures ahead, one flag per
  statement (an exhausted schedule means no failure), and counts the statements sent.
  The storage engine refuses every statement of a transaction in which a statement has
  failed, until the rollback; the schedules in which every flag after a set one is set
  are the runs of such a transaction.
\<close>

record connection =
  committed :: tables
  working :: tables
  faults :: "bool list"
  executed :: nat

definition table_exists :: "nat \<Rightarrow> bool" where
  "table_exists n \<longleftrightarrow> 1 \<le> n \<and> n \<le> 13"

definition next_fault :: "connection \<Rightarrow> bool \<times> connection" where
  "next_fault cn =
     ((case faults cn of [] \<Rightarrow> False | f # _ \<Rightarrow> f),
      cn\<lparr>faults := tl (faults cn), executed := Suc (executed cn)\<rparr>)"

definition set_markov :: "nat \<Rightarrow> markov_row list \<Rightarrow> connection \<Rightarrow> connection" where
  "set_markov n rows cn =
     cn\<lparr>working := (working cn)\<lparr>markov := (markov (working cn))(n := rows)\<rparr>\<rparr>"

text \<open>
  \<open>TRUNCATE TABLE markov_n RESTART IDENTITY\<close>; the second component tells whether
  the statement succeeded (\<open>False\<close>: it raised).
\<close>

definition execute_truncate :: "nat \<Rightarrow> connection \<Rightarrow> connection \<times> bool" where
  "execute_truncate n cn =
     (case next_fault cn of (f, cn1) \<Rightarrow>
        if f \<or> \<not> table_exists n then (cn1, False)
        else (set_markov n [] cn1, True))"

text \<open>
  The column types of \<open>create_tables\<close>: \<open>context VARCHAR(50)\<close>,
  \<open>symbol VARCHAR(10)\<close>, \<open>frequency BIGINT\<close>, and
  \<open>PRIMARY KEY (context, symbol)\<close>. A value that is too long for its column is
  refused here; the storage engine shortens instead of refusing it when all that is
  too much are spaces, which no context or symbol of an order table (at most 13
  characters and one character) can be.
\<close>

definition row_fits :: "markov_row \<Rightarrow> bool" where
  "row_fits r = (case r of (context, symbol, frequency) \<Rightarrow>
     length context \<le> 50 \<and> length symbol \<le> 10
     \<and> - (2 ^ 63) \<le> frequency \<and> frequency < 2 ^ 63)"

definition row_key :: "markov_row \<Rightarrow> ustring \<times> ustring" where
  "row_key r = (case r of (context, symbol, frequency) \<Rightarrow> (context, symbol))"

text \<open>
  \<open>INSERT INTO markov_n (context, symbol, frequency) VALUES (%s, %s, %s)\<close> for one
  row: it fails on a storage failure, a value that does not fit its column, or a key
  that is already in the table.
\<close>

definition execute_insert :: "nat \<Rightarrow> markov_row \<Rightarrow> connection \<Rightarrow> connection \<times> bool" where
  "execute_insert n r cn =
     (case next_fault cn of (f, cn1) \<Rightarrow>
        if f \<or> \<not> table_exists n \<or> \<not> row_fits r
           \<or> row_key r \<in> set (map row_key (markov (working cn1) n))
        then (cn1, False)
        else (set_markov n (markov (working cn1) n @ [r]) cn1, True))"

text \<open>
  \<open>execute_batch(cursor, sql, batch)\<close>: the rows are inserted in order, and the
  first failure stops the batch, leaving the rows before it in the open transaction.
\<close>

fun insert_rows :: "nat \<Rightarrow> markov_row list \<Rightarrow> connection \<Rightarrow> connection \<times> bool" where
  "insert_rows n [] cn = (cn, True)"
| "insert_rows n (r # rs) cn =
     (case execute_insert n r cn of (cn1, ok) \<Rightarrow>
        if ok then insert_rows n rs cn1 else (cn1, False))"

text \<open>
  \<open>cursor.copy_expert("COPY markov_n (context, symbol, frequency) FROM STDIN WITH
  CSV", f)\<close>: one statement that streams the staged rows into the table; it can fail
  when it starts and at every row.
\<close>

definition copy_expert :: "nat \<Rightarrow> markov_row list \<Rightarrow> connection \<Rightarrow> connection \<times> bool" where
  "copy_expert n rows cn =
     (case next_fault cn of (f, cn1) \<Rightarrow>
        if f \<or> \<not> table_exists n then (cn1, False) else insert_rows n rows cn1)"

text \<open>\<open>conn.commit()\<close> and \<open>conn.rollback()\<close>.\<close>

definition commit :: "connection \<Rightarrow> connection \<times> bool" where
  "commit cn =
     (case next_fault cn of (f, cn1) \<Rightarrow>
        if f then (cn1, False) else (cn1\<lparr>committed := working cn1\<rparr>, True))"

definition rollback :: "connection \<Rightarrow> connection" where
  "rollback cn = cn\<lparr>working := committed cn, executed := Suc (executed cn)\<rparr>"

text \<open>
  The rows of a frequency table, in the order of the two nested loops over
  \<open>frequencies.items()\<close> and \<open>symbols.items()\<close>.
\<close>

definition rows_of :: "(ustring, (ustring, int) dict) dict \<Rightarrow> markov_row list" where
  "rows_of frequencies =
     concat (map (\<lambda>(context, symbols). map (\<lambda>(symbol, freq). (context, symbol, freq)) symbols)
        frequencies)"

definition batch_size :: nat where
  "batch_size = 10000"

text \<open>
  The loop \<open>for i in range(0, len(data), batch_size)\<close> of
  \<open>save_markov_frequencies\<close>: insert one slice, commit, go on with the rest.
\<close>

function save_batches :: "nat \<Rightarrow> markov_row list \<Rightarrow> connection \<Rightarrow> connection \<times> bool" where
  "save_batches n data cn =
     (if data = [] then (cn, True)
      else (case insert_rows n (take batch_size data) cn of (cn1, ok) \<Rightarrow>
        if \<not> ok then (cn1, False)
        else (case commit cn1 of (cn2, ok2) \<Rightarrow>
          if \<not> ok2 then (cn2, False)
          else save_batches n (drop batch_size data) cn2)))"
  by pat_completeness auto
termination
  by (relation "measure (\<lambda>(n, data, cn). length data)") (auto simp: batch_size_def)

declare save_batches.simps [simp del]

text \<open>
  \<open>save_markov_frequencies\<close>. The result is the connection afterwards and the
  exception that left the function, if any: the \<open>except\<close> branch rolls back and
  raises again.
\<close>

definition save_markov_frequencies ::
    "nat \<Rightarrow> (ustring, (ustring, int) dict) dict \<Rightarrow> connection
      \<Rightarrow> connection \<times> py_error option" where
  "save_markov_frequencies n frequencies cn =
     (case execute_truncate n cn of (cn1, ok) \<Rightarrow>
        if \<not> ok then (rollback cn1, Some DatabaseError)
        else (case save_batches n (rows_of frequencies) cn1 of (cn2, ok2) \<Rightarrow>
          if \<not> ok2 then (rollback cn2, Some DatabaseError)
          else (cn2, None)))"

text \<open>
  \<open>save_markov_frequencies_bulk\<close> stages the rows in a temporary CSV file, copies
  the file into the table, commits once and deletes the file. The file operations can
  fail too: \<open>TempFileFails\<close> stands for a failure while the file is written or
  reopened (before \<open>COPY\<close>), \<open>UnlinkFails\<close> for a failure of \<open>os.unlink\<close>
  (after the commit). The staged file is modelled by the list of its rows:
  \<open>csv.writer\<close> and \<open>COPY ... WITH CSV\<close> are inverse to each other on contexts
  and symbols over the alphabet, which has no quote, line break or backslash.
\<close>

datatype fs_fault = NoFsFault | TempFileFails | UnlinkFails

definition save_markov_frequencies_bulk ::
    "nat \<Rightarrow> (ustring, (ustring, int) dict) dict \<Rightarrow> fs_fault \<Rightarrow> connection
      \<Rightarrow> connection \<times> py_error option" where
  "save_markov_frequencies_bulk n frequencies fs cn =
     (case execute_truncate n cn of (cn1, ok) \<Rightarrow>
        if \<not> ok then (rollback cn1, Some DatabaseError)
        else if fs = TempFileFails then (rollback cn1, Some OSError)
        else (case copy_expert n (rows_of frequencies) cn1 of (cn2, ok2) \<Rightarrow>
          if \<not> ok2 then (rollback cn2, Some DatabaseError)
          else (case commit cn2 of (cn3, ok3) \<Rightarrow>
            if \<not> ok3 then (rollback cn3, Some DatabaseError)
            else if fs = UnlinkFails then (rollback cn3, Some OSError)
            else (cn3, None))))"

text \<open>\<open>d[k] = v\<close> on a \<open>dict\<close>.\<close>

fun dict_set :: "'k \<Rightarrow> 'v \<Rightarrow> ('k, 'v) dict \<Rightarrow> ('k, 'v) dict" where
  "dict_set k v [] = [(k, v)]"
| "dict_set k v ((k', v') # d) =
     (if k = k' then (k', v) # d else (k', v') # dict_set k v d)"

text \<open>
  The loop both query functions share:
  \<^verbatim>\<open>
  total = sum(freq for _, freq in rows)
  probabilities = {}
  for symbol, freq in rows:
      probabilities[symbol] = freq / total if total > 0 else 0
  \<close>
  \<open>freq\<close> and \<open>total\<close> are of type \<open>int\<close>, so \<open>freq / total\<close> is the float
  nearest to the quotient.
\<close>

definition probabilities_of :: "(ustring \<times> int) list \<Rightarrow> (ustring, rat) dict" where
  "probabilities_of rows =
     (let total = sum_list (map snd rows)
      in foldl (\<lambda>probabilities (symbol, freq).
                  dict_set symbol (if total > 0 then truediv freq total else 0) probabilities)
           [] rows)"

text \<open>
  \<open>get_overall_probabilities\<close>: an exception of the query is caught and answered
  with the empty dictionary.
\<close>

definition get_overall_probabilities :: "connection \<Rightarrow> (ustring, rat) dict \<times> connection" where
  "get_overall_probabilities cn =
     (case next_fault cn of (f, cn1) \<Rightarrow>
        if f then ([], cn1)
        else (probabilities_of (overall_frequencies (working cn1)), cn1))"

text \<open>\<open>SELECT symbol, frequency FROM markov_n WHERE context = %s\<close>.\<close>

definition select_where_context :: "ustring \<Rightarrow> markov_row list \<Rightarrow> (ustring \<times> int) list" where
  "select_where_context context tab =
     map (\<lambda>(c, symbol, frequency). (symbol, frequency))
       (filter (\<lambda>(c, symbol, frequency). c = context) tab)"

text \<open>\<open>get_markov_probabilities\<close>, with the same \<open>except\<close> branch.\<close>

definition get_markov_probabilities ::
    "nat \<Rightarrow> ustring \<Rightarrow> connection \<Rightarrow> (ustring, rat) dict \<times> connection" where
  "get_markov_probabilities n context cn =
     (case next_fault cn of (f, cn1) \<Rightarrow>
        if f \<or> \<not> table_exists n then ([], cn1)
        else let rows = select_where_context context (markov (working cn1) n)
             in if rows = [] then ([], cn1) else (probabilities_of rows, cn1))"

section \<open>markov_model.py\<close>

definition get_probabilities :: "ustring \<Rightarrow> connection \<Rightarrow> (ustring, rat) dict \<times> connection" where
  "get_probabilities context cn =
     (let n = length context
      in if n = 0 \<or> n > 13 then ([], cn) else get_markov_probabilities n context cn)"

text \<open>
  \<open>random.choices(population, weights=weights, k=1)[0]\<close> of the standard library
  (CPython 3.9 and later), with the value \<open>u\<close> of its one call of \<open>random()\<close> as an
  argument:
  \<^verbatim>\<open>
  cum_weights = list(accumulate(weights))
  if len(cum_weights) != n: raise ValueError
  total = cum_weights[-1] + 0.0
  if total <= 0.0: raise ValueError
  hi = n - 1
  return [population[bisect(cum_weights, random() * total, 0, hi)]]
  \<close>
  \<open>accumulate\<close> yields the first weight and then the running sums, each the float
  sum of the one before and the next weight; \<open>bisect\<close> is \<open>bisect_right\<close>:
  \<^verbatim>\<open>
  while lo < hi:
      mid = (lo + hi) // 2
      if x < a[mid]: hi = mid
      else: lo = mid + 1
  return lo
  \<close>
\<close>

fun accumulate_from :: "rat \<Rightarrow> rat list \<Rightarrow> rat list" where
  "accumulate_from acc [] = []"
| "accumulate_from acc (w # ws) = float_add acc w # accumulate_from (float_add acc w) ws"

definition accumulate :: "rat list \<Rightarrow> rat list" where
  "accumulate ws = (case ws of [] \<Rightarrow> [] | w # ws' \<Rightarrow> w # accumulate_from w ws')"

function bisect :: "rat list \<Rightarrow> rat \<Rightarrow> nat \<Rightarrow> nat \<Rightarrow> nat" where
  "bisect a x lo hi =
     (if lo < hi
      then let mid = (lo + hi) div 2
           in if x < a ! mid then bisect a x lo mid else bisect a x (mid + 1) hi
      else lo)"
  by pat_completeness auto
termination
  by (relation "measure (\<lambda>(a, x, lo, hi). hi - lo)") auto

declare bisect.simps [simp del]

definition choices :: "ustring list \<Rightarrow> rat list \<Rightarrow> rat \<Rightarrow> py_error + ustring" where
  "choices population weights u =
     (let n = length population;
          cum_weights = accumulate weights
      in if length cum_weights \<noteq> n then Inl ValueError
         else if cum_weights = [] then Inl IndexError
         else let total = float_add (last cum_weights) 0
              in if total \<le> 0 then Inl ValueError
                 else Inr (population ! bisect cum_weights (float_mul u total) 0 (n - 1)))"

text \<open>
  The slice \<open>s[-k:]\<close>: the last \<open>k\<close> characters, all of \<open>s\<close> when it is shorter,
  and all of \<open>s\<close> for \<open>k = 0\<close> (\<open>s[-0:]\<close> is \<open>s[0:]\<close>).
\<close>

definition py_tail :: "nat \<Rightarrow> ustring \<Rightarrow> ustring" where
  "py_tail k s = (if k = 0 then s else drop (length s - k) s)"

text \<open>
  The inner loop of \<open>generate_text\<close>:
  \<^verbatim>\<open>
  while not probs and len(current_context) > 1:
      current_context = current_context[1:]
      probs = self.get_probabilities(current_context)
  \<close>
\<close>

function backoff ::
    "ustring \<Rightarrow> (ustring, rat) dict \<Rightarrow> connection
      \<Rightarrow> ustring \<times> (ustring, rat) dict \<times> connection" where
  "backoff current_context probs cn =
     (if probs = [] \<and> length current_context > 1
      then (case get_probabilities (drop 1 current_context) cn of
              (probs', cn') \<Rightarrow> backoff (drop 1 current_context) probs' cn')
      else (current_context, probs, cn))"
  by pat_completeness auto
termination
  by (relation "measure (\<lambda>(current_context, probs, cn). length current_context)") auto

declare backoff.simps [simp del]

text \<open>
  The first half of the loop body: the query for the current context, the inner loop,
  and the overall distribution when nothing was found. It yields the context as the
  inner loop left it and the dictionary \<open>probs\<close> the second half works with.
\<close>

definition select_distribution ::
    "ustring \<Rightarrow> connection \<Rightarrow> ustring \<times> (ustring, rat) dict \<times> connection" where
  "select_distribution current_context cn =
     (case get_probabilities current_context cn of (probs, cn1) \<Rightarrow>
      case backoff current_context probs cn1 of (current_context', probs', cn2) \<Rightarrow>
        if probs' = []
        then (case get_overall_probabilities cn2 of
                (overall, cn3) \<Rightarrow> (current_context', overall, cn3))
        else (current_context', probs', cn2))"

text \<open>
  The variables of \<open>generate_text\<close>, the connection, and the number of values drawn
  from the random generator so far; \<open>rnd k\<close> is the value of the \<open>k\<close>-th call of
  \<open>random()\<close>.
\<close>

record gen_state =
  result :: ustring
  current_context :: ustring
  conn :: connection
  draws :: nat

text \<open>
  \<open>symbols, weights = zip(*probs.items())\<close>: the keys and the values of
  \<open>probs\<close>, the two arguments of the sampler.
\<close>

definition unzip_items :: "(ustring, rat) dict \<Rightarrow> ustring list \<times> rat list" where
  "unzip_items probs = (map fst probs, map snd probs)"

text \<open>One iteration of \<open>for i in range(length)\<close>.\<close>

definition generate_step :: "(nat \<Rightarrow> rat) \<Rightarrow> gen_state \<Rightarrow> py_error + gen_state" where
  "generate_step rnd st =
     (case select_distribution (current_context st) (conn st) of (ctx, probs, cn) \<Rightarrow>
        if probs \<noteq> []
        then (case unzip_items probs of (symbols, weights) \<Rightarrow>
                case choices symbols weights (rnd (draws st)) of
                  Inl e \<Rightarrow> Inl e
                | Inr next_char \<Rightarrow>
                    Inr \<lparr>result = result st @ next_char,
                         current_context = py_tail 13 (ctx @ next_char),
                         conn = cn, draws = Suc (draws st)\<rparr>)
        else Inr \<lparr>result = result st @ [32],
                  current_context = py_tail 13 (ctx @ [32]),
                  conn = cn, draws = draws st\<rparr>)"

fun generate_loop :: "(nat \<Rightarrow> rat) \<Rightarrow> nat \<Rightarrow> gen_state \<Rightarrow> py_error + gen_state" where
  "generate_loop rnd 0 st = Inr st"
| "generate_loop rnd (Suc k) st =
     (case generate_step rnd st of Inl e \<Rightarrow> Inl e | Inr st' \<Rightarrow> generate_loop rnd k st')"

text \<open>
  \<open>result = seed\<close> and \<open>current_context = seed[-min(len(seed), 13):]\<close>, on a
  connection that is open.
\<close>

definition initial_state :: "ustring \<Rightarrow> connection \<Rightarrow> gen_state" where
  "initial_state seed cn =
     \<lparr>result = seed, current_context = py_tail (min (length seed) 13) seed,
      conn = cn, draws = 0\<rparr>"

text \<open>\<open>generate_text(seed, length)\<close>; \<open>range(length)\<close> is empty for a negative length.\<close>

definition generate_text ::
    "(nat \<Rightarrow> rat) \<Rightarrow> connection \<Rightarrow> ustring \<Rightarrow> int \<Rightarrow> py_error + ustring" where
  "generate_text rnd cn seed len =
     (case generate_loop rnd (nat len) (initial_state seed cn) of
        Inl e \<Rightarrow> Inl e
      | Inr st \<Rightarrow> Inr (result st))"

section \<open>Notions for the properties\<close>

text \<open>No two neighbouring characters are both whitespace.\<close>

fun single_spaced :: "ustring \<Rightarrow> bool" where
  "single_spaced (x # y # zs) \<longleftrightarrow>
     \<not> (py_isspace x \<and> py_isspace y) \<and> single_spaced (y # zs)"
| "single_spaced _ \<longleftrightarrow> True"

text \<open>
  A text cut at its whitespace into words, the maximal runs of characters that are not
  whitespace (what \<open>str.split()\<close> yields), and words glued with one space between
  two neighbours (\<open>' '.join\<close>). Collapsing every run of whitespace of a text to one
  space and trimming both ends leaves the words of the text, one space apart.
\<close>

function split_whitespace :: "ustring \<Rightarrow> ustring list" where
  "split_whitespace [] = []"
| "split_whitespace (c # cs) =
     (if py_isspace c then split_whitespace cs
      else (c # takeWhile (\<lambda>x. \<not> py_isspace x) cs)
             # split_whitespace (dropWhile (\<lambda>x. \<not> py_isspace x) cs))"
  by pat_completeness auto
termination
  by (relation "measure length") (auto simp: le_imp_less_Suc length_dropWhile_le)

fun join_spaces :: "ustring list \<Rightarrow> ustring" where
  "join_spaces [] = []"
| "join_spaces [w] = w"
| "join_spaces (w # v # ws) = w @ 32 # join_spaces (v # ws)"

text \<open>The sum of the counts stored for a context, zero when the context is absent.\<close>

definition row_total :: "('k, ('s, int) dict) dict \<Rightarrow> 'k \<Rightarrow> int" where
  "row_total d c = (case map_of d c of None \<Rightarrow> 0 | Some row \<Rightarrow> dict_total row)"

text \<open>
  An order table of order \<open>n\<close> as the data model has it: a dictionary (each context
  once, each symbol once in its row) from contexts of \<open>n\<close> alphabet characters to
  rows of single alphabet characters with positive counts; a count fits the
  \<open>BIGINT\<close> column.
\<close>

definition order_table :: "nat \<Rightarrow> (ustring, (ustring, int) dict) dict \<Rightarrow> bool" where
  "order_table n T \<longleftrightarrow>
     distinct (map fst T)
     \<and> (\<forall>(context, symbols) \<in> set T.
          length context = n \<and> set context \<subseteq> ALLOWED_CHARS \<and> distinct (map fst symbols)
          \<and> (\<forall>(symbol, freq) \<in> set symbols.
               length symbol = 1 \<and> set symbol \<subseteq> ALLOWED_CHARS \<and> 0 < freq \<and> freq < 2 ^ 63))"

text \<open>
  The invariant of the stored tables: a symbol is one character, a count is positive,
  and a key is stored once (the primary keys of the schema).
\<close>

definition store_invariant :: "tables \<Rightarrow> bool" where
  "store_invariant tabs \<longleftrightarrow>
     distinct (map fst (overall_frequencies tabs))
     \<and> (\<forall>(symbol, frequency) \<in> set (overall_frequencies tabs).
          length symbol = 1 \<and> 0 < frequency)
     \<and> (\<forall>n \<in> {1 .. 13}.
          distinct (map row_key (markov tabs n))
          \<and> (\<forall>(c, symbol, frequency) \<in> set (markov tabs n).
               length symbol = 1 \<and> 0 < frequency))"

text \<open>
  A dictionary the sampler accepts and answers with one character: every symbol is one
  character and every weight is positive.
\<close>

definition sampleable :: "(ustring, rat) dict \<Rightarrow> bool" where
  "sampleable probs \<longleftrightarrow> (\<forall>(symbol, weight) \<in> set probs. length symbol = 1 \<and> 0 < weight)"

text \<open>
  The connection as the first \<open>j\<close> queries of a generation step leave it: the
  queries are for the current context and then, one after the other, for the context
  without its first 1, 2, ... characters.
\<close>

fun after_queries :: "connection \<Rightarrow> ustring \<Rightarrow> nat \<Rightarrow> connection" where
  "after_queries cn ctx 0 = cn"
| "after_queries cn ctx (Suc j) = after_queries (snd (get_probabilities ctx cn)) (drop 1 ctx) j"

text \<open>
  Connections for concrete runs: one on freshly created, empty tables, and one whose
  tables all hold one row already. The argument is the schedule of failures.
  \<open>demo_connection\<close> holds the overall counts and the order-1 counts of a
  Russian text of nine characters (in Latin letters "mama myla").
\<close>

definition empty_tables :: tables where
  "empty_tables = \<lparr>overall_frequencies = [], markov = (\<lambda>n. [])\<rparr>"

definition fresh_connection :: "bool list \<Rightarrow> connection" where
  "fresh_connection fs =
     \<lparr>committed = empty_tables, working = empty_tables, faults = fs, executed = 0\<rparr>"

definition stocked_connection :: "bool list \<Rightarrow> connection" where
  "stocked_connection fs =
     \<lparr>committed = \<lparr>overall_frequencies = [], markov = (\<lambda>n. [([1073], [1074], 5)])\<rparr>,
      working = \<lparr>overall_frequencies = [], markov = (\<lambda>n. [([1073], [1074], 5)])\<rparr>,
      faults = fs, executed = 0\<rparr>"

definition demo_tables :: tables where
  "demo_tables =
     \<lparr>overall_frequencies = [([1084], 3), ([1072], 3), ([32], 1), ([1099], 1), ([1083], 1)],
      markov = (\<lambda>n. if n = 1
         then [([1084], [1072], 2), ([1084], [1099], 1), ([1072], [1084], 1), ([1072], [32], 1),
               ([32], [1084], 1), ([1099], [1083], 1), ([1083], [1072], 1)]
         else [])\<rparr>"

definition demo_connection :: "bool list \<Rightarrow> connection" where
  "demo_connection fs =
     \<lparr>committed = demo_tables, working = demo_tables, faults = fs, executed = 0\<rparr>"

section \<open>Properties\<close>

subsection \<open>Rounding to a float\<close>

lemma pow2_add: "(2::rat) powi (a + b) = 2 powi a * 2 powi b"
  by (rule power_int_add) simp

lemma pow2_diff: "(2::rat) powi (a - b) = 2 powi a / 2 powi b"
  by (rule power_int_diff) simp



lemma bitlen_powi_bounds:
  assumes "0 < a"
  shows "(2::rat) powi (bitlen a - 1) \<le> of_int a" and "of_int a < (2::rat) powi bitlen a"
proof -
  from assms have ge: "1 \<le> bitlen a" by (auto simp: bitlen_alt_def)
  from bitlen_bounds [OF assms]
  have l: "2 ^ nat (bitlen a - 1) \<le> a" and u: "a < 2 ^ nat (bitlen a)" by simp_all
  from l have "(of_int (2 ^ nat (bitlen a - 1)) :: rat) \<le> of_int a"
    by (simp only: of_int_le_iff)
  then show "(2::rat) powi (bitlen a - 1) \<le> of_int a"
    using ge by (simp add: power_int_nonneg_exp)
  from u have "(of_int a :: rat) < of_int (2 ^ nat (bitlen a))"
    by (simp only: of_int_less_iff)
  then show "of_int a < (2::rat) powi bitlen a"
    using ge by (simp add: power_int_nonneg_exp)
qed

lemma floor_log2_bounds:
  assumes "0 < x"
  shows "2 powi floor_log2 x \<le> x" and "x < 2 powi (floor_log2 x + 1)"
proof -
  obtain a b where q: "quotient_of x = (a, b)" by (cases "quotient_of x")
  then have b: "0 < b" by (rule quotient_of_denom_pos)
  from q have x: "x = of_int a / of_int b" by (rule quotient_of_div)
  with assms b have a: "0 < a" by (simp add: zero_less_divide_iff)
  let ?d = "bitlen a - bitlen b"
  have up: "x < 2 powi (?d + 1)"
  proof -
    have "x < 2 powi bitlen a / of_int b"
      unfolding x using bitlen_powi_bounds(2) [OF a] b by (simp add: divide_strict_right_mono)
    also have "\<dots> \<le> 2 powi bitlen a / 2 powi (bitlen b - 1)"
      using bitlen_powi_bounds(1) [OF b] by (simp add: frac_le)
    also have "\<dots> = 2 powi (?d + 1)"
      by (simp add: pow2_diff pow2_add)
    finally show ?thesis .
  qed
  have lo: "2 powi (?d - 1) \<le> x"
  proof -
    have "(2::rat) powi (?d - 1) = 2 powi (bitlen a - 1) / 2 powi bitlen b"
      by (simp add: pow2_diff)
    also have "\<dots> \<le> of_int a / 2 powi bitlen b"
      using bitlen_powi_bounds(1) [OF a] by (simp add: divide_right_mono)
    also have "\<dots> \<le> x"
      unfolding x using bitlen_powi_bounds(2) [OF b] a b by (simp add: frac_le)
    finally show ?thesis .
  qed
  show "2 powi floor_log2 x \<le> x"
    using lo by (simp add: floor_log2_def q Let_def)
  show "x < 2 powi (floor_log2 x + 1)"
    using up by (auto simp add: floor_log2_def q Let_def not_le)
qed



lemma round_half_even_of_int: "round_half_even (of_int n) = n"
  by (simp add: round_half_even_def)

lemma round_half_even_floor: "\<lfloor>q\<rfloor> \<le> round_half_even q \<and> round_half_even q \<le> \<lfloor>q\<rfloor> + 1"
  by (simp add: round_half_even_def Let_def)

lemma round_half_even_mono:
  assumes "q \<le> q'"
  shows "round_half_even q \<le> round_half_even q'"
proof (cases "\<lfloor>q\<rfloor> < \<lfloor>q'\<rfloor>")
  case True
  with round_half_even_floor [of q] round_half_even_floor [of q'] show ?thesis by linarith
next
  case False
  with assms have "\<lfloor>q\<rfloor> = \<lfloor>q'\<rfloor>" using floor_mono [of q q'] by linarith
  with assms show ?thesis
    by (auto simp: round_half_even_def Let_def)
qed

lemma round_half_even_ge: "of_int a \<le> q \<Longrightarrow> a \<le> round_half_even q"
  using round_half_even_mono [of "of_int a" q] by (simp add: round_half_even_of_int)

lemma round_half_even_le: "q \<le> of_int b \<Longrightarrow> round_half_even q \<le> b"
  using round_half_even_mono [of q "of_int b"] by (simp add: round_half_even_of_int)

text \<open>For a positive argument: the significand lies between 2^52 and 2^53.\<close>

lemma scaled_bounds:
  assumes "0 < x"
  shows "2 ^ 52 \<le> x / 2 powi (floor_log2 x - 52)" and "x / 2 powi (floor_log2 x - 52) < 2 ^ 53"
proof -
  have "2 ^ 52 * 2 powi (floor_log2 x - 52) = (2::rat) powi floor_log2 x"
    by (simp add: pow2_diff)
  with floor_log2_bounds(1) [OF assms] show "2 ^ 52 \<le> x / 2 powi (floor_log2 x - 52)"
    by (simp add: pos_le_divide_eq)
  have "2 ^ 53 * 2 powi (floor_log2 x - 52) = (2::rat) powi (floor_log2 x + 1)"
    by (simp add: pow2_diff pow2_add)
  with floor_log2_bounds(2) [OF assms] show "x / 2 powi (floor_log2 x - 52) < 2 ^ 53"
    by (simp add: pos_divide_less_eq)
qed

lemma round_to_double_pos_eq:
  "0 < x \<Longrightarrow> round_to_double x
     = of_int (round_half_even (x / 2 powi (floor_log2 x - 52))) * 2 powi (floor_log2 x - 52)"
  by (simp add: round_to_double_def Let_def)

lemma significand_bounds:
  assumes "0 < x"
  shows "2 ^ 52 \<le> round_half_even (x / 2 powi (floor_log2 x - 52))"
    and "round_half_even (x / 2 powi (floor_log2 x - 52)) \<le> 2 ^ 53"
proof -
  have "of_int (2 ^ 52) \<le> x / 2 powi (floor_log2 x - 52)"
    using scaled_bounds(1) [OF assms] by simp
  then show "2 ^ 52 \<le> round_half_even (x / 2 powi (floor_log2 x - 52))"
    by (rule round_half_even_ge)
  have "x / 2 powi (floor_log2 x - 52) \<le> of_int (2 ^ 53)"
    using scaled_bounds(2) [OF assms] by simp
  then show "round_half_even (x / 2 powi (floor_log2 x - 52)) \<le> 2 ^ 53"
    by (rule round_half_even_le)
qed

lemma round_to_double_pos:
  assumes "0 < x"
  shows "0 < round_to_double x"
proof -
  have "(0::int) < 2 ^ 52" by simp
  with significand_bounds(1) [OF assms]
  have "0 < round_half_even (x / 2 powi (floor_log2 x - 52))" by linarith
  then show ?thesis
    by (simp add: round_to_double_pos_eq [OF assms] zero_less_mult_iff)
qed








lemma truediv_pos: "0 < a \<Longrightarrow> 0 < b \<Longrightarrow> 0 < truediv a b"
  unfolding truediv_def by (rule round_to_double_pos) simp


lemma float_add_pos: "0 < x \<Longrightarrow> 0 \<le> y \<Longrightarrow> 0 < float_add x y"
  unfolding float_add_def by (rule round_to_double_pos) simp




subsection \<open>Dictionaries\<close>

lemma dict_total_incr: "dict_total (dict_incr k d) = dict_total d + 1"
  by (induction k d rule: dict_incr.induct) (auto simp: dict_total_def)

subsection \<open>Normalisation: alphabet, single spaces, trimmed ends\<close>

lemma ALLOWED_space: "32 \<in> ALLOWED_CHARS"
  by (simp add: ALLOWED_CHARS_def)

lemma isspace_32: "py_isspace 32"
  by (simp add: py_isspace_def)

lemma py_isspace_bounds: "py_isspace c \<Longrightarrow> c \<le> 32 \<or> (133 \<le> c \<and> c \<le> 160) \<or> 5760 \<le> c"
  unfolding py_isspace_def by (elim rev_mp) simp

lemma ALLOWED_bounds: "c \<in> ALLOWED_CHARS \<Longrightarrow> c = 32 \<or> (33 \<le> c \<and> c \<le> 63) \<or> (1072 \<le> c \<and> c \<le> 1105)"
  unfolding ALLOWED_CHARS_def by (elim rev_mp) simp

lemma allowed_isspace: "c \<in> ALLOWED_CHARS \<Longrightarrow> py_isspace c \<Longrightarrow> c = 32"
  using py_isspace_bounds [of c] ALLOWED_bounds [of c] by arith

lemma set_replace_disallowed: "set (replace_disallowed t) \<subseteq> ALLOWED_CHARS"
  by (auto simp: replace_disallowed_def ALLOWED_space)

lemma set_re_sub_spaces: "set (re_sub_spaces t) \<subseteq> insert 32 (set t)"
proof (induction t rule: re_sub_spaces.induct)
  case 1
  then show ?case by simp
next
  case (2 c cs)
  show ?case
  proof (cases "py_isspace c")
    case True
    with 2 have "set (re_sub_spaces (dropWhile py_isspace cs)) \<subseteq> insert 32 (set (dropWhile py_isspace cs))"
      by simp
    moreover have "set (dropWhile py_isspace cs) \<subseteq> set cs"
      by (auto dest: set_dropWhileD)
    ultimately show ?thesis using True by auto
  next
    case False
    with 2 show ?thesis by auto
  qed
qed

lemma set_strip: "set (strip s) \<subseteq> set s"
  by (auto simp: strip_def dest!: set_dropWhileD)

lemma normalize_text_allowed: "set (normalize_text lower t) \<subseteq> ALLOWED_CHARS"
proof -
  have "set (normalize_text lower t) \<subseteq> set (re_sub_spaces (replace_disallowed (lower t)))"
    unfolding normalize_text_def by (rule set_strip)
  also have "\<dots> \<subseteq> insert 32 (set (replace_disallowed (lower t)))"
    by (rule set_re_sub_spaces)
  also have "\<dots> \<subseteq> ALLOWED_CHARS"
    using set_replace_disallowed [of "lower t"] ALLOWED_space by auto
  finally show ?thesis .
qed

lemma re_sub_spaces_hd:
  "re_sub_spaces xs = y # ys \<Longrightarrow> py_isspace y \<Longrightarrow> \<exists>x xs'. xs = x # xs' \<and> py_isspace x"
  by (cases xs) (auto split: if_splits)

lemma dropWhile_hd: "dropWhile P xs = y # ys \<Longrightarrow> \<not> P y"
  using hd_dropWhile [of P xs] by auto

lemma single_spaced_re_sub: "single_spaced (re_sub_spaces t)"
proof (induction t rule: re_sub_spaces.induct)
  case 1
  then show ?case by simp
next
  case (2 c cs)
  show ?case
  proof (cases "py_isspace c")
    case True
    let ?r = "re_sub_spaces (dropWhile py_isspace cs)"
    from 2 True have ih: "single_spaced ?r" by simp
    show ?thesis
    proof (cases ?r)
      case Nil
      with True show ?thesis by simp
    next
      case (Cons y ys)
      have "\<not> py_isspace y"
      proof
        assume "py_isspace y"
        with Cons obtain x xs' where "dropWhile py_isspace cs = x # xs'" "py_isspace x"
          using re_sub_spaces_hd by blast
        then show False using dropWhile_hd by fastforce
      qed
      with ih Cons True show ?thesis by simp
    qed
  next
    case False
    with 2 have ih: "single_spaced (re_sub_spaces cs)" by simp
    with False show ?thesis by (cases "re_sub_spaces cs") auto
  qed
qed

lemma single_spaced_tl: "single_spaced (x # xs) \<Longrightarrow> single_spaced xs"
  by (cases xs) auto

lemma single_spaced_append:
  "single_spaced (xs @ ys) \<Longrightarrow> single_spaced xs \<and> single_spaced ys"
proof (induction xs)
  case Nil
  then show ?case by simp
next
  case (Cons x xs)
  from Cons.prems have "single_spaced (xs @ ys)"
    by (simp only: append_Cons single_spaced_tl)
  with Cons.IH have ih: "single_spaced xs" "single_spaced ys" by blast+
  show ?case
  proof (cases xs)
    case Nil
    with ih show ?thesis by simp
  next
    case (Cons y zs)
    with Cons.prems ih show ?thesis by simp
  qed
qed

lemma strip_decomp: "\<exists>pre post. s = pre @ strip s @ post"
proof -
  let ?u = "dropWhile py_isspace s"
  have "s = takeWhile py_isspace s @ ?u" by simp
  moreover have "rev ?u = takeWhile py_isspace (rev ?u) @ dropWhile py_isspace (rev ?u)" by simp
  then have "?u = strip s @ rev (takeWhile py_isspace (rev ?u))"
    unfolding strip_def by (metis rev_append rev_rev_ident)
  ultimately show ?thesis by metis
qed

lemma single_spaced_strip: "single_spaced s \<Longrightarrow> single_spaced (strip s)"
  using strip_decomp [of s] single_spaced_append by metis

lemma single_spaced_nth:
  "single_spaced xs \<Longrightarrow> Suc i < length xs \<Longrightarrow> \<not> (py_isspace (xs ! i) \<and> py_isspace (xs ! Suc i))"
proof (induction xs arbitrary: i rule: single_spaced.induct)
  case (1 x y zs)
  then show ?case by (cases i) auto
qed auto

lemma strip_last: "strip s \<noteq> [] \<Longrightarrow> \<not> py_isspace (last (strip s))"
proof -
  assume ne: "strip s \<noteq> []"
  let ?d = "dropWhile py_isspace (rev (dropWhile py_isspace s))"
  from ne have "?d \<noteq> []" by (simp add: strip_def)
  then have "\<not> py_isspace (hd ?d)" by (rule hd_dropWhile)
  moreover have "last (strip s) = hd ?d"
    using \<open>?d \<noteq> []\<close> by (simp add: strip_def last_rev)
  ultimately show ?thesis by simp
qed

lemma strip_hd: "strip s \<noteq> [] \<Longrightarrow> \<not> py_isspace (hd (strip s))"
proof -
  assume ne: "strip s \<noteq> []"
  let ?u = "dropWhile py_isspace s"
  obtain post where u: "?u = strip s @ post"
  proof -
    have "rev ?u = takeWhile py_isspace (rev ?u) @ dropWhile py_isspace (rev ?u)" by simp
    then have "?u = strip s @ rev (takeWhile py_isspace (rev ?u))"
      unfolding strip_def by (metis rev_append rev_rev_ident)
    then show ?thesis using that by blast
  qed
  with ne have "?u \<noteq> []" by auto
  then have "\<not> py_isspace (hd ?u)" by (rule hd_dropWhile)
  moreover from u ne have "hd ?u = hd (strip s)" by simp
  ultimately show ?thesis by simp
qed

subsection \<open>Normalisation: the words of the text, one space apart\<close>

lemma re_sub_spaces_words:
  "\<forall>x \<in> set w. \<not> py_isspace x \<Longrightarrow> re_sub_spaces (w @ r) = w @ re_sub_spaces r"
  by (induction w) auto

lemma re_sub_spaces_no_leading:
  "re_sub_spaces (dropWhile py_isspace s) = [] \<or> \<not> py_isspace (hd (re_sub_spaces (dropWhile py_isspace s)))"
proof (cases "re_sub_spaces (dropWhile py_isspace s)")
  case Nil
  then show ?thesis by simp
next
  case (Cons y ys)
  have "\<not> py_isspace y"
  proof
    assume "py_isspace y"
    with Cons obtain x xs' where "dropWhile py_isspace s = x # xs'" "py_isspace x"
      using re_sub_spaces_hd by blast
    then show False using dropWhile_hd by fastforce
  qed
  with Cons show ?thesis by simp
qed

lemma dropWhile_id: "xs = [] \<or> \<not> P (hd xs) \<Longrightarrow> dropWhile P xs = xs"
  by (cases xs) auto

lemma dropWhile_re_sub_spaces:
  "dropWhile py_isspace (re_sub_spaces s) = re_sub_spaces (dropWhile py_isspace s)"
proof (cases s)
  case Nil
  then show ?thesis by simp
next
  case (Cons c cs)
  show ?thesis
  proof (cases "py_isspace c")
    case True
    have "dropWhile py_isspace (re_sub_spaces (dropWhile py_isspace cs))
        = re_sub_spaces (dropWhile py_isspace cs)"
      by (rule dropWhile_id) (rule re_sub_spaces_no_leading)
    with True Cons show ?thesis by (simp add: isspace_32)
  next
    case False
    with Cons show ?thesis by simp
  qed
qed

lemma split_whitespace_dropWhile:
  "split_whitespace (dropWhile py_isspace s) = split_whitespace s"
  by (induction s) auto

lemma rstrip_keep:
  "xs \<noteq> [] \<Longrightarrow> \<not> py_isspace (last xs) \<Longrightarrow> rev (dropWhile py_isspace (rev xs)) = xs"
  by (cases xs rule: rev_cases) auto

lemma rstrip_append:
  assumes "rev (dropWhile py_isspace (rev b)) \<noteq> []"
  shows "rev (dropWhile py_isspace (rev (a @ b))) = a @ rev (dropWhile py_isspace (rev b))"
proof -
  from assms have "dropWhile py_isspace (rev b) \<noteq> []" by simp
  then obtain x where "x \<in> set (rev b)" "\<not> py_isspace x"
    by (auto simp: dropWhile_eq_Nil_conv)
  then have "dropWhile py_isspace (rev b @ rev a) = dropWhile py_isspace (rev b) @ rev a"
    by (rule dropWhile_append1)
  then show ?thesis by simp
qed

lemma rstrip_space:
  "py_isspace x \<Longrightarrow>
     rev (dropWhile py_isspace (rev (w @ [x]))) = rev (dropWhile py_isspace (rev w))"
  by simp

lemma join_spaces_Cons:
  "ws \<noteq> [] \<Longrightarrow> join_spaces (w # ws) = w @ 32 # join_spaces ws"
  by (cases ws) auto

lemma split_whitespace_word:
  "\<not> py_isspace c \<Longrightarrow>
     split_whitespace (c # cs)
       = (c # takeWhile (\<lambda>x. \<not> py_isspace x) cs)
           # split_whitespace (dropWhile (\<lambda>x. \<not> py_isspace x) cs)"
  by simp

lemma join_split_nonempty:
  "\<not> py_isspace c \<Longrightarrow> join_spaces (split_whitespace (c # cs)) \<noteq> []"
  by (cases "split_whitespace (dropWhile (\<lambda>x. \<not> py_isspace x) cs)") auto

text \<open>
  On a text without leading whitespace: collapsing and trimming on the right gives
  the words, one space apart.
\<close>

lemma rstrip_re_sub_spaces:
  "s = [] \<or> \<not> py_isspace (hd s) \<Longrightarrow>
     rev (dropWhile py_isspace (rev (re_sub_spaces s))) = join_spaces (split_whitespace s)"
proof (induction "length s" arbitrary: s rule: less_induct)
  case less
  show ?case
  proof (cases s)
    case Nil
    then show ?thesis by simp
  next
    case (Cons c cs)
    with less.prems have c: "\<not> py_isspace c" by simp
    let ?w = "c # takeWhile (\<lambda>x. \<not> py_isspace x) cs"
    let ?rest = "dropWhile (\<lambda>x. \<not> py_isspace x) cs"
    have s: "s = ?w @ ?rest" using Cons by simp
    have w: "\<forall>x \<in> set ?w. \<not> py_isspace x"
      using c by (auto dest: set_takeWhileD)
    have rs: "re_sub_spaces s = ?w @ re_sub_spaces ?rest"
      by (subst s) (rule re_sub_spaces_words [OF w])
    have sp: "split_whitespace s = ?w # split_whitespace ?rest"
      unfolding Cons using c by (rule split_whitespace_word)
    have lastw: "\<not> py_isspace (last ?w)"
      using w last_in_set [of ?w] by blast
    have keepw: "rev (dropWhile py_isspace (rev ?w)) = ?w"
      by (rule rstrip_keep [OF _ lastw]) simp
    show ?thesis
    proof (cases ?rest)
      case Nil
      have "re_sub_spaces s = ?w" using rs Nil by simp
      moreover have "split_whitespace s = [?w]" using sp Nil by simp
      ultimately show ?thesis using keepw by (simp only: join_spaces.simps)
    next
      case rest: (Cons r rs')
      then have r: "py_isspace r" using dropWhile_hd [of "\<lambda>x. \<not> py_isspace x" cs r rs'] by simp
      let ?t = "dropWhile py_isspace rs'"
      have rr: "re_sub_spaces ?rest = 32 # re_sub_spaces ?t"
        using rest r by simp
      have st: "split_whitespace ?rest = split_whitespace ?t"
        using rest r by (simp add: split_whitespace_dropWhile)
      have tl: "?t = [] \<or> \<not> py_isspace (hd ?t)"
        using hd_dropWhile [of py_isspace rs'] by blast
      have "length ?t \<le> length rs'" by (rule length_dropWhile_le)
      also have "\<dots> < length ?rest" using rest by simp
      also have "\<dots> \<le> length cs" by (rule length_dropWhile_le)
      finally have lt: "length ?t < length s" using Cons by simp
      from less.hyps [OF lt tl]
      have ih: "rev (dropWhile py_isspace (rev (re_sub_spaces ?t))) = join_spaces (split_whitespace ?t)" .
      show ?thesis
      proof (cases ?t)
        case Nil
        have "rev (dropWhile py_isspace (rev (?w @ [32]))) = ?w"
          by (simp only: rstrip_space [OF isspace_32] keepw)
        moreover have "re_sub_spaces s = ?w @ [32]" using rs rr Nil by simp
        moreover have "split_whitespace s = [?w]" using sp st Nil by simp
        ultimately show ?thesis by (simp only: join_spaces.simps)
      next
        case t: (Cons d ds)
        with tl have d: "\<not> py_isspace d" by simp
        then have ne: "join_spaces (split_whitespace ?t) \<noteq> []"
          unfolding t by (rule join_split_nonempty)
        have sne: "split_whitespace ?t \<noteq> []"
          unfolding t using d by simp
        have "rev (dropWhile py_isspace (rev ((?w @ [32]) @ re_sub_spaces ?t)))
            = (?w @ [32]) @ rev (dropWhile py_isspace (rev (re_sub_spaces ?t)))"
          using ne ih by (intro rstrip_append) simp
        then have "rev (dropWhile py_isspace (rev (re_sub_spaces s)))
            = ?w @ 32 # join_spaces (split_whitespace ?t)"
          using rs rr ih by simp
        also have "\<dots> = join_spaces (?w # split_whitespace ?t)"
          by (rule join_spaces_Cons [OF sne, symmetric])
        finally show ?thesis using sp st by simp
      qed
    qed
  qed
qed

lemma strip_re_sub_spaces:
  "strip (re_sub_spaces s) = join_spaces (split_whitespace s)"
proof -
  let ?t = "dropWhile py_isspace s"
  have "?t = [] \<or> \<not> py_isspace (hd ?t)"
    using hd_dropWhile [of py_isspace s] by blast
  then have "rev (dropWhile py_isspace (rev (re_sub_spaces ?t))) = join_spaces (split_whitespace ?t)"
    by (rule rstrip_re_sub_spaces)
  then show ?thesis
    by (simp add: strip_def dropWhile_re_sub_spaces split_whitespace_dropWhile)
qed

lemma normalize_text_words:
  "normalize_text lower t
     = join_spaces (split_whitespace (map (\<lambda>c. if c \<in> ALLOWED_CHARS then c else 32) (lower t)))"
  by (simp add: normalize_text_def replace_disallowed_def strip_re_sub_spaces)

text \<open>The characters that are not whitespace pass every stage unchanged.\<close>

lemma filter_dropWhile_isspace:
  "filter (\<lambda>c. \<not> py_isspace c) (dropWhile py_isspace s) = filter (\<lambda>c. \<not> py_isspace c) s"
  by (induction s) auto

lemma filter_strip:
  "filter (\<lambda>c. \<not> py_isspace c) (strip s) = filter (\<lambda>c. \<not> py_isspace c) s"
proof -
  have "filter (\<lambda>c. \<not> py_isspace c) (strip s)
      = rev (filter (\<lambda>c. \<not> py_isspace c) (dropWhile py_isspace (rev (dropWhile py_isspace s))))"
    by (simp add: strip_def rev_filter)
  also have "\<dots> = rev (filter (\<lambda>c. \<not> py_isspace c) (rev (dropWhile py_isspace s)))"
    by (simp only: filter_dropWhile_isspace)
  also have "\<dots> = filter (\<lambda>c. \<not> py_isspace c) (dropWhile py_isspace s)"
    by (simp add: rev_filter)
  finally show ?thesis by (simp only: filter_dropWhile_isspace)
qed

lemma filter_re_sub_spaces:
  "filter (\<lambda>c. \<not> py_isspace c) (re_sub_spaces s) = filter (\<lambda>c. \<not> py_isspace c) s"
proof (induction s rule: re_sub_spaces.induct)
  case 1
  then show ?case by simp
next
  case (2 c cs)
  show ?case
  proof (cases "py_isspace c")
    case True
    with 2 have "filter (\<lambda>c. \<not> py_isspace c) (re_sub_spaces (dropWhile py_isspace cs))
        = filter (\<lambda>c. \<not> py_isspace c) (dropWhile py_isspace cs)"
      by simp
    with True show ?thesis by (simp add: isspace_32 filter_dropWhile_isspace)
  next
    case False
    with 2 show ?thesis by simp
  qed
qed

lemma filter_replace_disallowed:
  "filter (\<lambda>c. \<not> py_isspace c) (replace_disallowed s)
     = filter (\<lambda>c. c \<in> ALLOWED_CHARS \<and> c \<noteq> 32) s"
proof (induction s)
  case Nil
  then show ?case by (simp add: replace_disallowed_def)
next
  case (Cons c cs)
  then have ih: "filter (\<lambda>c. \<not> py_isspace c) (replace_disallowed cs)
      = filter (\<lambda>c. c \<in> ALLOWED_CHARS \<and> c \<noteq> 32) cs" .
  have step: "replace_disallowed (c # cs)
      = (if c \<in> ALLOWED_CHARS then c else 32) # replace_disallowed cs"
    by (simp add: replace_disallowed_def)
  show ?case
  proof (cases "c \<in> ALLOWED_CHARS")
    case False
    with ih step show ?thesis by (simp add: isspace_32)
  next
    case True
    then have "py_isspace c \<longleftrightarrow> c = 32"
      using allowed_isspace [of c] isspace_32 by blast
    with True ih step show ?thesis by simp
  qed
qed

lemma normalize_text_letters:
  "filter (\<lambda>c. c \<noteq> 32) (normalize_text lower t)
     = filter (\<lambda>c. c \<in> ALLOWED_CHARS \<and> c \<noteq> 32) (lower t)"
proof -
  have "filter (\<lambda>c. c \<noteq> 32) (normalize_text lower t)
      = filter (\<lambda>c. \<not> py_isspace c) (normalize_text lower t)"
  proof (rule filter_cong [OF refl])
    fix c assume "c \<in> set (normalize_text lower t)"
    then have "c \<in> ALLOWED_CHARS" using normalize_text_allowed by blast
    then show "(c \<noteq> 32) = (\<not> py_isspace c)"
      using allowed_isspace [of c] isspace_32 by blast
  qed
  also have "\<dots> = filter (\<lambda>c. c \<in> ALLOWED_CHARS \<and> c \<noteq> 32) (lower t)"
    by (simp only: normalize_text_def filter_strip filter_re_sub_spaces filter_replace_disallowed)
  finally show ?thesis .
qed

lemma replace_disallowed_id: "set r \<subseteq> ALLOWED_CHARS \<Longrightarrow> replace_disallowed r = r"
  unfolding replace_disallowed_def by (induction r) auto

lemma re_sub_spaces_id:
  "single_spaced r \<Longrightarrow> set r \<subseteq> ALLOWED_CHARS \<Longrightarrow> re_sub_spaces r = r"
proof (induction r rule: re_sub_spaces.induct)
  case 1
  then show ?case by simp
next
  case (2 c cs)
  from "2.prems" have ss: "single_spaced cs" and al: "set cs \<subseteq> ALLOWED_CHARS"
    by (cases cs; simp)+
  show ?case
  proof (cases "py_isspace c")
    case True
    with "2.prems" have c: "c = 32" by (simp add: allowed_isspace)
    from True "2.prems" have dw: "dropWhile py_isspace cs = cs" by (cases cs) auto
    from "2.IH"(1) [OF True] ss al dw have "re_sub_spaces cs = cs" by simp
    with True c dw show ?thesis by simp
  next
    case False
    with "2.IH"(2) ss al show ?thesis by simp
  qed
qed

lemma strip_id:
  "(s \<noteq> [] \<Longrightarrow> \<not> py_isspace (hd s) \<and> \<not> py_isspace (last s)) \<Longrightarrow> strip s = s"
proof (cases s)
  case Nil
  then show ?thesis by (simp add: strip_def)
next
  case (Cons x xs)
  assume "s \<noteq> [] \<Longrightarrow> \<not> py_isspace (hd s) \<and> \<not> py_isspace (last s)"
  with Cons have h: "\<not> py_isspace x" and l: "\<not> py_isspace (last s)" by auto
  from h Cons have "dropWhile py_isspace s = s" by simp
  moreover from Cons have "hd (rev s) = last s" by (simp only: hd_rev)
  with l have "dropWhile py_isspace (rev s) = rev s"
    by (simp only: dropWhile_eq_self_iff) simp
  ultimately show ?thesis by (simp add: strip_def)
qed

lemma single_spaced_normalize: "single_spaced (normalize_text lower t)"
  unfolding normalize_text_def by (intro single_spaced_strip single_spaced_re_sub)

lemma normalize_fixed:
  assumes "lower (normalize_text lower t) = normalize_text lower t"
  shows "normalize_text lower (normalize_text lower t) = normalize_text lower t"
proof -
  let ?r = "normalize_text lower t"
  have a: "set ?r \<subseteq> ALLOWED_CHARS" by (rule normalize_text_allowed)
  have s: "single_spaced ?r" by (rule single_spaced_normalize)
  have e: "?r \<noteq> [] \<Longrightarrow> \<not> py_isspace (hd ?r) \<and> \<not> py_isspace (last ?r)"
    unfolding normalize_text_def using strip_hd strip_last by blast
  have "normalize_text lower ?r = strip (re_sub_spaces (replace_disallowed ?r))"
    using assms by (simp add: normalize_text_def)
  also have "\<dots> = strip (re_sub_spaces ?r)"
    using a by (simp add: replace_disallowed_id)
  also have "\<dots> = strip ?r"
    using a s by (simp add: re_sub_spaces_id)
  also have "\<dots> = ?r"
    using e by (rule strip_id)
  finally show ?thesis .
qed

lemma lower_cp_allowed: "c \<in> ALLOWED_CHARS \<Longrightarrow> lower_cp c = c"
  using ALLOWED_bounds [of c] by (auto simp: lower_cp_def)

lemma lower_ru_allowed: "set s \<subseteq> ALLOWED_CHARS \<Longrightarrow> lower_ru s = s"
  unfolding lower_ru_def by (induction s) (auto simp: lower_cp_allowed)

subsection \<open>Counting\<close>

lemma count_overall_fold:
  "dict_total (foldl (\<lambda>frequencies char.
              if char \<in> ALLOWED_CHARS then dict_incr [char] frequencies else frequencies) acc text)
   = dict_total acc + int (length (filter (\<lambda>c. c \<in> ALLOWED_CHARS) text))"
  by (induction "text" arbitrary: acc) (auto simp: dict_total_incr)

lemma count_overall_total:
  "set text \<subseteq> ALLOWED_CHARS \<Longrightarrow> dict_total (count_overall_frequencies text) = int (length text)"
proof -
  assume "set text \<subseteq> ALLOWED_CHARS"
  then have "filter (\<lambda>c. c \<in> ALLOWED_CHARS) text = text" by (auto simp: filter_id_conv)
  then show ?thesis
    unfolding count_overall_frequencies_def count_overall_fold by (simp add: dict_total_def)
qed

lemma dict_total_Nil: "dict_total [] = 0"
  by (simp add: dict_total_def)

lemma dict_total_one: "dict_total [(s, 1)] = 1"
  by (simp add: dict_total_def)

lemma row_total_incr2:
  "row_total (dict_incr2 k s d) c = row_total d c + (if c = k then 1 else 0)"
  by (induction k s d rule: dict_incr2.induct)
     (auto simp: row_total_def dict_total_incr dict_total_Nil dict_total_one)

lemma count_markov_fold:
  "row_total (foldl (\<lambda>frequencies i.
              if ok i then dict_incr2 (ctx i) (nxt i) frequencies else frequencies) acc idx) c
   = row_total acc c + int (length (filter (\<lambda>i. ok i \<and> ctx i = c) idx))"
  by (induction idx arbitrary: acc) (auto simp: row_total_incr2)

lemma count_markov_row_total:
  assumes "set text \<subseteq> ALLOWED_CHARS"
  shows "row_total (count_markov_frequencies text n) c
    = int (length (filter (\<lambda>i. take n (drop i text) = c) [0 ..< length text - n]))"
proof -
  let ?ok = "\<lambda>i. (\<forall>c \<in> set (take n (drop i text)). c \<in> ALLOWED_CHARS) \<and> text ! (i + n) \<in> ALLOWED_CHARS"
  have ok: "?ok i" if "i \<in> set [0 ..< length text - n]" for i
  proof -
    from that have "i + n < length text" by auto
    then have "text ! (i + n) \<in> set text" by simp
    moreover have "set (take n (drop i text)) \<subseteq> set text"
      by (meson set_take_subset set_drop_subset subset_trans)
    ultimately show ?thesis using assms by blast
  qed
  have "count_markov_frequencies text n =
    foldl (\<lambda>frequencies i. if ?ok i then dict_incr2 (take n (drop i text)) [text ! (i + n)] frequencies
        else frequencies) [] [0 ..< length text - n]"
    by (simp add: count_markov_frequencies_def Let_def)
  then have "row_total (count_markov_frequencies text n) c
    = int (length (filter (\<lambda>i. ?ok i \<and> take n (drop i text) = c) [0 ..< length text - n]))"
    using count_markov_fold [where ok = ?ok and ctx = "\<lambda>i. take n (drop i text)"
        and nxt = "\<lambda>i. [text ! (i + n)]" and acc = "[]" and idx = "[0 ..< length text - n]" and c = c]
    by (simp add: row_total_def)
  also have "filter (\<lambda>i. ?ok i \<and> take n (drop i text) = c) [0 ..< length text - n]
    = filter (\<lambda>i. take n (drop i text) = c) [0 ..< length text - n]"
    by (rule filter_cong) (use ok in auto)
  finally show ?thesis .
qed

subsection \<open>The text processor\<close>

text \<open>
  C4. Whatever the input and whatever the lowercase mapping of the runtime does, the
  output of \<open>normalize_text\<close> holds alphabet characters only, never holds two
  spaces in a row, and neither starts nor ends with a space. It is obtained from the
  lowercased input as the claim says: with every character outside the alphabet
  replaced by a space (and every other character kept), the output is the words of
  that text, its maximal runs without whitespace, in their order and one space apart,
  which is the text with every run of whitespace collapsed to one space and both ends
  trimmed. In particular the characters of the output other than the space are exactly
  the alphabet characters other than the space of the lowercased input, in their
  order.
\<close>

theorem normalize_text_output:
  "set (normalize_text lower t) \<subseteq> ALLOWED_CHARS
   \<and> (\<forall>i. Suc i < length (normalize_text lower t) \<longrightarrow>
          \<not> (normalize_text lower t ! i = 32 \<and> normalize_text lower t ! Suc i = 32))
   \<and> (normalize_text lower t \<noteq> [] \<longrightarrow>
          hd (normalize_text lower t) \<noteq> 32 \<and> last (normalize_text lower t) \<noteq> 32)
   \<and> normalize_text lower t
        = join_spaces (split_whitespace
            (map (\<lambda>c. if c \<in> ALLOWED_CHARS then c else 32) (lower t)))
   \<and> filter (\<lambda>c. c \<noteq> 32) (normalize_text lower t)
        = filter (\<lambda>c. c \<in> ALLOWED_CHARS \<and> c \<noteq> 32) (lower t)"
proof (intro conjI allI impI)
  show "set (normalize_text lower t) \<subseteq> ALLOWED_CHARS"
    by (rule normalize_text_allowed)
next
  fix i
  assume "Suc i < length (normalize_text lower t)"
  with single_spaced_nth [OF single_spaced_normalize]
  have "\<not> (py_isspace (normalize_text lower t ! i) \<and> py_isspace (normalize_text lower t ! Suc i))"
    by blast
  then show "\<not> (normalize_text lower t ! i = 32 \<and> normalize_text lower t ! Suc i = 32)"
    using isspace_32 by auto
next
  assume "normalize_text lower t \<noteq> []"
  then have "\<not> py_isspace (hd (normalize_text lower t))"
    unfolding normalize_text_def by (rule strip_hd)
  then show "hd (normalize_text lower t) \<noteq> 32"
    using isspace_32 by auto
next
  assume "normalize_text lower t \<noteq> []"
  then have "\<not> py_isspace (last (normalize_text lower t))"
    unfolding normalize_text_def by (rule strip_last)
  then show "last (normalize_text lower t) \<noteq> 32"
    using isspace_32 by auto
next
  show "normalize_text lower t
      = join_spaces (split_whitespace
          (map (\<lambda>c. if c \<in> ALLOWED_CHARS then c else 32) (lower t)))"
    by (rule normalize_text_words)
next
  show "filter (\<lambda>c. c \<noteq> 32) (normalize_text lower t)
      = filter (\<lambda>c. c \<in> ALLOWED_CHARS \<and> c \<noteq> 32) (lower t)"
    by (rule normalize_text_letters)
qed

lemma normalize_text_run:
  "normalize_text lower_ru [32, 1052, 1072, 9, 32, 1084, 1040, 33, 81, 32]
     = [1084, 1072, 32, 1084, 1072, 33]"
  by (simp add: normalize_text_def lower_ru_def lower_cp_def replace_disallowed_def
        ALLOWED_CHARS_def py_isspace_def strip_def)

lemma lower_ru_run:
  "lower_ru [32, 1052, 1072, 9, 32, 1084, 1040, 33, 81, 32]
     = [32, 1084, 1072, 9, 32, 1084, 1072, 33, 113, 32]"
  by (simp add: lower_ru_def lower_cp_def)

lemma replace_run:
  "map (\<lambda>c. if c \<in> ALLOWED_CHARS then c else 32) [32, 1084, 1072, 9, 32, 1084, 1072, 33, 113, 32]
     = [32, 1084, 1072, 32, 32, 1084, 1072, 33, 32, 32]"
  by (simp add: ALLOWED_CHARS_def)

lemma split_whitespace_run:
  "split_whitespace [32, 1084, 1072, 32, 32, 1084, 1072, 33, 32, 32]
     = [[1084, 1072], [1084, 1072, 33]]"
  by (simp add: py_isspace_def)

text \<open>
  A run on a string with a leading space, capitals, a tab followed by a space, a
  Latin letter and a trailing space: the lowercased text, its two words after the
  replacement, and the output.
\<close>

theorem normalize_text_output_witness:
  "normalize_text lower_ru [32, 1052, 1072, 9, 32, 1084, 1040, 33, 81, 32]
     = [1084, 1072, 32, 1084, 1072, 33]
   \<and> set (normalize_text lower_ru [32, 1052, 1072, 9, 32, 1084, 1040, 33, 81, 32]) \<subseteq> ALLOWED_CHARS
   \<and> hd (normalize_text lower_ru [32, 1052, 1072, 9, 32, 1084, 1040, 33, 81, 32]) \<noteq> 32
   \<and> last (normalize_text lower_ru [32, 1052, 1072, 9, 32, 1084, 1040, 33, 81, 32]) \<noteq> 32
   \<and> \<not> (normalize_text lower_ru [32, 1052, 1072, 9, 32, 1084, 1040, 33, 81, 32] ! 2 = 32
        \<and> normalize_text lower_ru [32, 1052, 1072, 9, 32, 1084, 1040, 33, 81, 32] ! Suc 2 = 32)
   \<and> lower_ru [32, 1052, 1072, 9, 32, 1084, 1040, 33, 81, 32]
       = [32, 1084, 1072, 9, 32, 1084, 1072, 33, 113, 32]
   \<and> split_whitespace (map (\<lambda>c. if c \<in> ALLOWED_CHARS then c else 32)
        (lower_ru [32, 1052, 1072, 9, 32, 1084, 1040, 33, 81, 32]))
       = [[1084, 1072], [1084, 1072, 33]]
   \<and> join_spaces (split_whitespace (map (\<lambda>c. if c \<in> ALLOWED_CHARS then c else 32)
        (lower_ru [32, 1052, 1072, 9, 32, 1084, 1040, 33, 81, 32])))
       = [1084, 1072, 32, 1084, 1072, 33]
   \<and> filter (\<lambda>c. c \<in> ALLOWED_CHARS \<and> c \<noteq> 32)
        (lower_ru [32, 1052, 1072, 9, 32, 1084, 1040, 33, 81, 32])
       = [1084, 1072, 1084, 1072, 33]"
proof -
  let ?r = "normalize_text lower_ru [32, 1052, 1072, 9, 32, 1084, 1040, 33, 81, 32]"
  let ?l = "lower_ru [32, 1052, 1072, 9, 32, 1084, 1040, 33, 81, 32]"
  note w = normalize_text_output [of lower_ru "[32, 1052, 1072, 9, 32, 1084, 1040, 33, 81, 32]"]
  have ne: "?r \<noteq> []" and len: "Suc 2 < length ?r"
    by (simp_all add: normalize_text_run)
  from w have "set ?r \<subseteq> ALLOWED_CHARS" by (rule conjunct1)
  moreover from w ne have "hd ?r \<noteq> 32 \<and> last ?r \<noteq> 32" by blast
  moreover from w len have "\<not> (?r ! 2 = 32 \<and> ?r ! Suc 2 = 32)" by blast
  moreover from w have "?r = join_spaces (split_whitespace
      (map (\<lambda>c. if c \<in> ALLOWED_CHARS then c else 32) ?l))"
    by blast
  then have "join_spaces (split_whitespace
      (map (\<lambda>c. if c \<in> ALLOWED_CHARS then c else 32) ?l)) = [1084, 1072, 32, 1084, 1072, 33]"
    by (simp only: normalize_text_run)
  moreover from w have "filter (\<lambda>c. c \<noteq> 32) ?r = filter (\<lambda>c. c \<in> ALLOWED_CHARS \<and> c \<noteq> 32) ?l"
    by blast
  then have "filter (\<lambda>c. c \<in> ALLOWED_CHARS \<and> c \<noteq> 32) ?l = [1084, 1072, 1084, 1072, 33]"
    by (simp add: normalize_text_run)
  moreover have "split_whitespace (map (\<lambda>c. if c \<in> ALLOWED_CHARS then c else 32) ?l)
      = [[1084, 1072], [1084, 1072, 33]]"
    by (simp only: lower_ru_run replace_run split_whitespace_run)
  ultimately show ?thesis using normalize_text_run lower_ru_run by blast
qed

text \<open>
  C10. \<open>normalize_text\<close> is idempotent. The lowercase mapping enters here: it has
  to leave a string of alphabet characters as it is, which \<open>str.lower\<close> does (the
  letters of the alphabet are lowercase already, the others are caseless).
\<close>

theorem normalize_text_idempotent:
  assumes "\<And>s. set s \<subseteq> ALLOWED_CHARS \<Longrightarrow> lower s = s"
  shows "normalize_text lower (normalize_text lower t) = normalize_text lower t"
  by (rule normalize_fixed) (rule assms, rule normalize_text_allowed)

text \<open>
  The same run, normalized twice, with the mapping \<open>lower_ru\<close>.
\<close>

theorem normalize_text_idempotent_witness:
  "normalize_text lower_ru (normalize_text lower_ru [32, 1052, 1072, 9, 32, 1084, 1040, 33, 81, 32])
     = [1084, 1072, 32, 1084, 1072, 33]"
  using normalize_text_idempotent [of lower_ru "[32, 1052, 1072, 9, 32, 1084, 1040, 33, 81, 32]",
      OF lower_ru_allowed]
  by (simp add: normalize_text_run)

text \<open>
  C6. On a normalized text, that is, an output of \<open>normalize_text\<close> or, more
  generally, any sequence of alphabet characters, the counts of
  \<open>count_overall_frequencies\<close> add up to the length of the text.
\<close>

theorem count_overall_frequencies_total:
  assumes "text = normalize_text lower raw \<or> set text \<subseteq> ALLOWED_CHARS"
  shows "dict_total (count_overall_frequencies text) = int (length text)"
proof -
  from assms have "set text \<subseteq> ALLOWED_CHARS"
    using normalize_text_allowed [of lower raw] by auto
  then show ?thesis by (rule count_overall_total)
qed

lemma count_overall_run:
  "count_overall_frequencies [1084, 1072, 32, 1084, 1072, 33]
     = [([1084], 2), ([1072], 2), ([32], 1), ([33], 1)]"
  by (simp add: count_overall_frequencies_def ALLOWED_CHARS_def)

text \<open>
  The text of that run has six characters; its four different characters are counted
  2, 2, 1 and 1.
\<close>

theorem count_overall_frequencies_total_witness:
  "dict_total (count_overall_frequencies
       (normalize_text lower_ru [32, 1052, 1072, 9, 32, 1084, 1040, 33, 81, 32])) = 6
   \<and> count_overall_frequencies
       (normalize_text lower_ru [32, 1052, 1072, 9, 32, 1084, 1040, 33, 81, 32])
     = [([1084], 2), ([1072], 2), ([32], 1), ([33], 1)]"
  using count_overall_frequencies_total
      [of "normalize_text lower_ru [32, 1052, 1072, 9, 32, 1084, 1040, 33, 81, 32]" lower_ru
          "[32, 1052, 1072, 9, 32, 1084, 1040, 33, 81, 32]"]
  by (simp add: normalize_text_run count_overall_run)

text \<open>
  C5. On a normalized text (an output of \<open>normalize_text\<close> or any sequence of
  alphabet characters) and for an order \<open>n\<close> from 1 to 13, the counts stored for a
  context \<open>c\<close> that is present in \<open>count_markov_frequencies(text, n)\<close> add up to
  the number of start indices \<open>i\<close> in \<open>[0, len(text) - n)\<close> at which \<open>c\<close>
  occurs in the text, that is, the occurrences of \<open>c\<close> that are followed by a
  character.
\<close>

theorem count_markov_frequencies_row_sum:
  assumes "text = normalize_text lower raw \<or> set text \<subseteq> ALLOWED_CHARS"
    and "1 \<le> n" and "n \<le> 13"
    and "map_of (count_markov_frequencies text n) c = Some row"
  shows "dict_total row
    = int (length (filter (\<lambda>i. take n (drop i text) = c) [0 ..< length text - n]))"
proof -
  from assms(1) have "set text \<subseteq> ALLOWED_CHARS"
    using normalize_text_allowed [of lower raw] by auto
  from count_markov_row_total [OF this, of n c] assms(4) show ?thesis
    by (simp add: row_total_def)
qed

lemma normalize_text_run2:
  "normalize_text lower_ru [1052, 1040, 1084, 1072, 10] = [1084, 1072, 1084, 1072]"
  by (simp add: normalize_text_def lower_ru_def lower_cp_def replace_disallowed_def
        ALLOWED_CHARS_def py_isspace_def strip_def)

lemma count_markov_run:
  "count_markov_frequencies [1084, 1072, 1084, 1072] 1
     = [([1084], [([1072], 2)]), ([1072], [([1084], 1)])]"
  by (simp add: count_markov_frequencies_def ALLOWED_CHARS_def upt_rec Let_def)

text \<open>
  The text "MAma" with a line break at its end normalizes to "mama" (all in Russian
  letters); at order 1 the context "m" occurs twice with a successor, and its row
  holds the count 2 for "a".
\<close>

theorem count_markov_frequencies_row_sum_witness:
  "normalize_text lower_ru [1052, 1040, 1084, 1072, 10] = [1084, 1072, 1084, 1072]
   \<and> count_markov_frequencies [1084, 1072, 1084, 1072] 1
     = [([1084], [([1072], 2)]), ([1072], [([1084], 1)])]
   \<and> dict_total [([1072 :: nat], 2)]
     = int (length (filter (\<lambda>i. take 1 (drop i [1084, 1072, 1084, 1072]) = [1084 :: nat])
          [0 ..< length [1084, 1072, 1084, 1072 :: nat] - 1]))
   \<and> dict_total [([1072 :: nat], 2)] = 2"
proof -
  have a: "[1084, 1072, 1084, 1072] = normalize_text lower_ru [1052, 1040, 1084, 1072, 10]
      \<or> set [1084, 1072, 1084, 1072] \<subseteq> ALLOWED_CHARS"
    by (simp add: normalize_text_run2)
  have r: "map_of (count_markov_frequencies [1084, 1072, 1084, 1072] 1) [1084] = Some [([1072], 2)]"
    by (simp only: count_markov_run) simp
  have "dict_total [([1072 :: nat], 2)]
     = int (length (filter (\<lambda>i. take 1 (drop i [1084, 1072, 1084, 1072]) = [1084 :: nat])
          [0 ..< length [1084, 1072, 1084, 1072 :: nat] - 1]))"
    by (rule count_markov_frequencies_row_sum [OF a _ _ r]) simp_all
  moreover have "dict_total [([1072 :: nat], 2)] = 2"
    by (simp add: dict_total_def)
  ultimately show ?thesis using count_markov_run normalize_text_run2 by blast
qed

subsection \<open>The store: statements and transactions\<close>

lemma next_fault_quiet:
  "faults cn = [] \<Longrightarrow> next_fault cn = (False, cn\<lparr>executed := Suc (executed cn)\<rparr>)"
  by (simp add: next_fault_def)

lemma next_fault_tables [simp]:
  "committed (snd (next_fault cn)) = committed cn"
  "working (snd (next_fault cn)) = working cn"
  by (simp_all add: next_fault_def)

lemma next_fault_snd:
  "next_fault cn = (f, cn1) \<Longrightarrow> committed cn1 = committed cn \<and> working cn1 = working cn"
  by (auto simp: next_fault_def)

lemma set_markov_simps [simp]:
  "committed (set_markov n rows cn) = committed cn"
  "faults (set_markov n rows cn) = faults cn"
  "markov (working (set_markov n rows cn)) = (markov (working cn))(n := rows)"
  "overall_frequencies (working (set_markov n rows cn)) = overall_frequencies (working cn)"
  by (simp_all add: set_markov_def)

lemma execute_truncate_quiet:
  assumes "faults cn = []" and "table_exists n"
  shows "\<exists>cn'. execute_truncate n cn = (cn', True) \<and> faults cn' = []
           \<and> markov (working cn') n = []"
  using assms by (simp add: execute_truncate_def next_fault_quiet)

lemma execute_truncate_committed:
  "execute_truncate n cn = (cn', ok) \<Longrightarrow> committed cn' = committed cn"
  by (auto simp: execute_truncate_def split: prod.splits if_splits dest: next_fault_snd)

lemma execute_truncate_ok:
  "execute_truncate n cn = (cn', True) \<Longrightarrow> markov (working cn') n = []"
  by (auto simp: execute_truncate_def split: prod.splits if_splits)

lemma execute_insert_committed:
  "execute_insert n r cn = (cn', ok) \<Longrightarrow> committed cn' = committed cn"
  by (auto simp: execute_insert_def split: prod.splits if_splits dest: next_fault_snd)

lemma execute_insert_ok:
  "execute_insert n r cn = (cn', True) \<Longrightarrow>
     markov (working cn') n = markov (working cn) n @ [r]"
  by (auto simp: execute_insert_def split: prod.splits if_splits dest: next_fault_snd)

lemma execute_insert_quiet:
  assumes "faults cn = []" and "table_exists n" and "row_fits r"
    and "row_key r \<notin> set (map row_key (markov (working cn) n))"
  shows "\<exists>cn'. execute_insert n r cn = (cn', True) \<and> faults cn' = []
           \<and> markov (working cn') n = markov (working cn) n @ [r]"
  using assms by (simp add: execute_insert_def next_fault_quiet)

lemma insert_rows_committed:
  "insert_rows n rows cn = (cn', ok) \<Longrightarrow> committed cn' = committed cn"
proof (induction rows arbitrary: cn)
  case Nil
  then show ?case by simp
next
  case (Cons r rs)
  obtain cn1 ok1 where e: "execute_insert n r cn = (cn1, ok1)" by (cases "execute_insert n r cn")
  then have c: "committed cn1 = committed cn" by (rule execute_insert_committed)
  show ?case
  proof (cases ok1)
    case True
    with Cons.prems e have "insert_rows n rs cn1 = (cn', ok)" by simp
    then have "committed cn' = committed cn1" by (rule Cons.IH)
    with c show ?thesis by simp
  next
    case False
    with Cons.prems e c show ?thesis by simp
  qed
qed

lemma insert_rows_ok:
  "insert_rows n rows cn = (cn', True) \<Longrightarrow>
     markov (working cn') n = markov (working cn) n @ rows"
proof (induction rows arbitrary: cn)
  case Nil
  then show ?case by simp
next
  case (Cons r rs)
  obtain cn1 ok1 where e: "execute_insert n r cn = (cn1, ok1)" by (cases "execute_insert n r cn")
  with Cons.prems have ok1: "ok1" and rest: "insert_rows n rs cn1 = (cn', True)"
    by (auto split: if_splits)
  from e ok1 have "markov (working cn1) n = markov (working cn) n @ [r]"
    by (simp add: execute_insert_ok)
  moreover from rest have "markov (working cn') n = markov (working cn1) n @ rs"
    by (rule Cons.IH)
  ultimately show ?case by simp
qed

lemma insert_rows_quiet:
  assumes "faults cn = []" and "table_exists n" and "\<forall>r \<in> set rows. row_fits r"
    and "distinct (map row_key (markov (working cn) n @ rows))"
  shows "\<exists>cn'. insert_rows n rows cn = (cn', True) \<and> faults cn' = []
           \<and> markov (working cn') n = markov (working cn) n @ rows"
  using assms
proof (induction rows arbitrary: cn)
  case Nil
  then show ?case by simp
next
  case (Cons r rs)
  from Cons.prems have "row_key r \<notin> set (map row_key (markov (working cn) n))" and "row_fits r"
    by auto
  with Cons.prems(1,2) obtain cn1 where e: "execute_insert n r cn = (cn1, True)"
    and q: "faults cn1 = []" and t: "markov (working cn1) n = markov (working cn) n @ [r]"
    using execute_insert_quiet by blast
  from Cons.prems t have "distinct (map row_key (markov (working cn1) n @ rs))"
    and "\<forall>r \<in> set rs. row_fits r"
    by auto
  with Cons.IH [OF q Cons.prems(2)] obtain cn' where
    "insert_rows n rs cn1 = (cn', True)" "faults cn' = []"
    "markov (working cn') n = markov (working cn1) n @ rs"
    by blast
  with e t show ?case by simp
qed

lemma commit_quiet:
  "faults cn = [] \<Longrightarrow>
     \<exists>cn'. commit cn = (cn', True) \<and> faults cn' = [] \<and> working cn' = working cn
       \<and> committed cn' = working cn"
  by (simp add: commit_def next_fault_quiet)

lemma commit_cases:
  "commit cn = (cn', ok) \<Longrightarrow>
     working cn' = working cn \<and> committed cn' = (if ok then working cn else committed cn)"
  by (auto simp: commit_def split: prod.splits if_splits dest: next_fault_snd)

lemma rollback_simps [simp]:
  "committed (rollback cn) = committed cn"
  "working (rollback cn) = committed cn"
  "faults (rollback cn) = faults cn"
  by (simp_all add: rollback_def)

lemma save_batches_quiet:
  assumes "faults cn = []" and "table_exists n" and "\<forall>r \<in> set data. row_fits r"
    and "distinct (map row_key (markov (working cn) n @ data))"
  shows "\<exists>cn'. save_batches n data cn = (cn', True) \<and> faults cn' = []
           \<and> markov (working cn') n = markov (working cn) n @ data"
  using assms
proof (induction data arbitrary: cn rule: length_induct)
  case (1 data)
  show ?case
  proof (cases "data = []")
    case True
    with "1.prems" show ?thesis by (subst save_batches.simps) simp
  next
    case False
    let ?b = "take batch_size data" and ?d = "drop batch_size data"
    have split: "data = ?b @ ?d" by simp
    from "1.prems"(3) have fb: "\<forall>r \<in> set ?b. row_fits r" and fd: "\<forall>r \<in> set ?d. row_fits r"
      by (auto dest: in_set_takeD in_set_dropD)
    from "1.prems"(4) have dall: "distinct (map row_key ((markov (working cn) n @ ?b) @ ?d))"
      by (simp only: append_assoc append_take_drop_id)
    then have db: "distinct (map row_key (markov (working cn) n @ ?b))"
      by (simp only: map_append [of row_key "markov (working cn) n @ ?b"] distinct_append)
    from insert_rows_quiet [OF "1.prems"(1,2) fb db] obtain cn1 where
      i: "insert_rows n ?b cn = (cn1, True)" and q1: "faults cn1 = []"
      and t1: "markov (working cn1) n = markov (working cn) n @ ?b"
      by blast
    from commit_quiet [OF q1] obtain cn2 where
      c: "commit cn1 = (cn2, True)" and q2: "faults cn2 = []" and w2: "working cn2 = working cn1"
      by blast
    have len: "length ?d < length data"
      using False by (simp add: batch_size_def)
    from dall t1 w2 have d2: "distinct (map row_key (markov (working cn2) n @ ?d))"
      by (simp only:)
    from "1.IH" len q2 "1.prems"(2) fd d2 obtain cn' where
      s: "save_batches n ?d cn2 = (cn', True)" and q: "faults cn' = []"
      and t: "markov (working cn') n = markov (working cn2) n @ ?d"
      by blast
    have "save_batches n data cn = save_batches n ?d cn2"
      using False i c by (subst save_batches.simps) simp
    moreover have "markov (working cn2) n @ ?d = markov (working cn) n @ data"
      using t1 w2 by simp
    ultimately show ?thesis using s q t by simp
  qed
qed

subsection \<open>The store: the rows of a table and the answer to a query\<close>

lemma rows_of_Cons:
  "rows_of ((c, row) # T) = map (Pair c) row @ rows_of T"
  by (simp add: rows_of_def)

lemma rows_of_Nil: "rows_of [] = []"
  by (simp add: rows_of_def)

lemma rows_of_mem:
  "(c, s, f) \<in> set (rows_of T) \<longleftrightarrow> (\<exists>row. (c, row) \<in> set T \<and> (s, f) \<in> set row)"
  by (auto simp: rows_of_def)

lemma select_where_context_Nil: "select_where_context c [] = []"
  by (simp add: select_where_context_def)

lemma select_where_context_append:
  "select_where_context c (xs @ ys) = select_where_context c xs @ select_where_context c ys"
  by (simp add: select_where_context_def)

lemma select_where_context_row:
  "select_where_context c (map (Pair c0) row) = (if c0 = c then row else [])"
  unfolding select_where_context_def by (induction row) auto

lemma select_where_context_absent:
  "c \<notin> fst ` set T \<Longrightarrow> select_where_context c (rows_of T) = []"
  unfolding select_where_context_def
  by (force simp: filter_empty_conv rows_of_mem)

lemma select_rows_of:
  "distinct (map fst T) \<Longrightarrow>
     select_where_context c (rows_of T) = (case map_of T c of None \<Rightarrow> [] | Some row \<Rightarrow> row)"
proof (induction T)
  case Nil
  then show ?case by (simp add: rows_of_Nil select_where_context_Nil)
next
  case (Cons p T)
  obtain c0 row where p: "p = (c0, row)" by (cases p)
  from Cons have ih: "select_where_context c (rows_of T)
      = (case map_of T c of None \<Rightarrow> [] | Some row \<Rightarrow> row)"
    by simp
  show ?case
  proof (cases "c0 = c")
    case True
    with Cons.prems p have "c \<notin> fst ` set T" by auto
    then have "select_where_context c (rows_of T) = []" by (rule select_where_context_absent)
    with True p show ?thesis
      by (simp add: rows_of_Cons select_where_context_append select_where_context_row)
  next
    case False
    with p ih show ?thesis
      by (simp add: rows_of_Cons select_where_context_append select_where_context_row)
  qed
qed

lemma rows_of_keys_distinct:
  assumes "distinct (map fst T)" and "\<forall>(c, row) \<in> set T. distinct (map fst row)"
  shows "distinct (map row_key (rows_of T))"
  using assms
proof (induction T)
  case Nil
  then show ?case by (simp add: rows_of_Nil)
next
  case (Cons p T)
  obtain c0 row where p: "p = (c0, row)" by (cases p)
  have m: "map row_key (map (Pair c0) row) = map (Pair c0) (map fst row)"
    by (induction row) (auto simp: row_key_def)
  from Cons.prems p have "distinct (map fst row)" by auto
  then have d1: "distinct (map row_key (map (Pair c0) row))"
    unfolding m by (simp add: distinct_map inj_on_def)
  from Cons have d2: "distinct (map row_key (rows_of T))" by auto
  from Cons.prems p have "c0 \<notin> fst ` set T" by auto
  then have "\<And>s f. (c0, s, f) \<notin> set (rows_of T)"
    by (auto simp: rows_of_mem intro: rev_image_eqI)
  then have d3: "set (map row_key (map (Pair c0) row)) \<inter> set (map row_key (rows_of T)) = {}"
    by (auto simp: row_key_def)
  from d1 d2 d3 p show ?case by (simp add: rows_of_Cons)
qed

lemma order_table_rows:
  assumes "order_table n T" and "n \<le> 13"
  shows "distinct (map row_key (rows_of T))" and "\<forall>r \<in> set (rows_of T). row_fits r"
proof -
  from assms(1) have d: "distinct (map fst T)" and r: "\<forall>(c, row) \<in> set T. distinct (map fst row)"
    by (auto simp: order_table_def)
  then show "distinct (map row_key (rows_of T))" by (rule rows_of_keys_distinct)
  show "\<forall>r \<in> set (rows_of T). row_fits r"
  proof
    fix r assume "r \<in> set (rows_of T)"
    obtain c s f where r: "r = (c, s, f)" by (cases r)
    with \<open>r \<in> set (rows_of T)\<close> obtain row where "(c, row) \<in> set T" "(s, f) \<in> set row"
      unfolding r rows_of_mem by blast
    with assms(1) have "length c = n" "length s = 1" "0 < f" "f < 2 ^ 63"
      by (auto simp: order_table_def)
    with assms(2) r show "row_fits r" by (simp add: row_fits_def)
  qed
qed

lemma dict_set_new: "k \<notin> fst ` set d \<Longrightarrow> dict_set k v d = d @ [(k, v)]"
  by (induction d) auto

lemma foldl_dict_set_distinct:
  "distinct (map fst acc @ map fst rows) \<Longrightarrow>
     foldl (\<lambda>probabilities (symbol, freq). dict_set symbol (g freq) probabilities) acc rows
       = acc @ map (\<lambda>(symbol, freq). (symbol, g freq)) rows"
proof (induction rows arbitrary: acc)
  case Nil
  then show ?case by simp
next
  case (Cons p rows)
  obtain s f where p: "p = (s, f)" by (cases p)
  with Cons.prems have "s \<notin> fst ` set acc" by auto
  then have "dict_set s (g f) acc = acc @ [(s, g f)]" by (rule dict_set_new)
  moreover from Cons.prems p have "distinct (map fst (acc @ [(s, g f)]) @ map fst rows)" by auto
  ultimately show ?case using p Cons.IH [of "acc @ [(s, g f)]"] by simp
qed

lemma probabilities_of_distinct:
  "distinct (map fst rows) \<Longrightarrow>
     probabilities_of rows
       = map (\<lambda>(symbol, freq).
            (symbol, if sum_list (map snd rows) > 0
                     then truediv freq (sum_list (map snd rows)) else 0)) rows"
  unfolding probabilities_of_def Let_def
  by (subst foldl_dict_set_distinct) simp_all

lemma get_markov_probabilities_quiet:
  assumes "faults cn = []" and "table_exists n"
  shows "fst (get_markov_probabilities n c cn)
    = (let rows = select_where_context c (markov (working cn) n)
       in if rows = [] then [] else probabilities_of rows)"
  using assms by (simp add: get_markov_probabilities_def next_fault_quiet Let_def)

subsection \<open>Saving a table and querying it\<close>

lemma save_batches_persisted:
  "save_batches n data cn = (cn', True) \<Longrightarrow> data \<noteq> [] \<Longrightarrow> committed cn' = working cn'"
proof (induction data arbitrary: cn rule: length_induct)
  case (1 data)
  let ?b = "take batch_size data" and ?d = "drop batch_size data"
  obtain cn1 ok where i: "insert_rows n ?b cn = (cn1, ok)" by (cases "insert_rows n ?b cn")
  obtain cn2 ok2 where c: "commit cn1 = (cn2, ok2)" by (cases "commit cn1")
  have unf: "save_batches n data cn
      = (if \<not> ok then (cn1, False) else if \<not> ok2 then (cn2, False) else save_batches n ?d cn2)"
    using "1.prems"(2) i c by (subst save_batches.simps) simp
  from "1.prems"(1) have ok: "ok" "ok2" and rest: "save_batches n ?d cn2 = (cn', True)"
    unfolding unf by (simp_all split: if_splits)
  from commit_cases [OF c] ok have eq: "committed cn2 = working cn2" by simp
  show ?case
  proof (cases "?d = []")
    case True
    with rest have "cn' = cn2" by (subst (asm) save_batches.simps) simp
    with eq show ?thesis by simp
  next
    case False
    have "length ?d < length data" using "1.prems"(2) by (simp add: batch_size_def)
    with "1.IH" rest False show ?thesis by blast
  qed
qed

lemma save_markov_frequencies_quiet:
  assumes "faults cn = []" and "1 \<le> n" and "n \<le> 13" and "order_table n T"
  shows "\<exists>cn'. save_markov_frequencies n T cn = (cn', None) \<and> faults cn' = []
           \<and> markov (working cn') n = rows_of T
           \<and> (rows_of T \<noteq> [] \<longrightarrow> committed cn' = working cn')"
proof -
  have te: "table_exists n" using assms(2,3) by (simp add: table_exists_def)
  from execute_truncate_quiet [OF assms(1) te] obtain cn1 where
    t: "execute_truncate n cn = (cn1, True)" and q1: "faults cn1 = []"
    and e1: "markov (working cn1) n = []"
    by blast
  from order_table_rows [OF assms(4,3)] e1
  have "\<forall>r \<in> set (rows_of T). row_fits r"
    and "distinct (map row_key (markov (working cn1) n @ rows_of T))"
    by simp_all
  from save_batches_quiet [OF q1 te this] obtain cn2 where
    s: "save_batches n (rows_of T) cn1 = (cn2, True)" and "faults cn2 = []"
    "markov (working cn2) n = markov (working cn1) n @ rows_of T"
    by blast
  moreover from save_batches_persisted [OF s]
  have "rows_of T \<noteq> [] \<longrightarrow> committed cn2 = working cn2" by blast
  ultimately show ?thesis using t e1 by (simp add: save_markov_frequencies_def)
qed

lemma copy_expert_quiet:
  assumes "faults cn = []" and "table_exists n" and "\<forall>r \<in> set rows. row_fits r"
    and "distinct (map row_key (markov (working cn) n @ rows))"
  shows "\<exists>cn'. copy_expert n rows cn = (cn', True) \<and> faults cn' = []
           \<and> markov (working cn') n = markov (working cn) n @ rows"
proof -
  let ?cn1 = "cn\<lparr>executed := Suc (executed cn)\<rparr>"
  have "faults ?cn1 = []" "markov (working ?cn1) n = markov (working cn) n"
    using assms(1) by simp_all
  with insert_rows_quiet [of ?cn1 n rows] assms(2,3,4) obtain cn' where
    "insert_rows n rows ?cn1 = (cn', True)" "faults cn' = []"
    "markov (working cn') n = markov (working cn) n @ rows"
    by auto
  with assms(1,2) show ?thesis by (simp add: copy_expert_def next_fault_quiet)
qed

lemma save_markov_frequencies_bulk_quiet:
  assumes "faults cn = []" and "1 \<le> n" and "n \<le> 13" and "order_table n T"
  shows "\<exists>cn'. save_markov_frequencies_bulk n T NoFsFault cn = (cn', None) \<and> faults cn' = []
           \<and> markov (working cn') n = rows_of T \<and> committed cn' = working cn'"
proof -
  have te: "table_exists n" using assms(2,3) by (simp add: table_exists_def)
  from execute_truncate_quiet [OF assms(1) te] obtain cn1 where
    t: "execute_truncate n cn = (cn1, True)" and q1: "faults cn1 = []"
    and e1: "markov (working cn1) n = []"
    by blast
  from order_table_rows [OF assms(4,3)] e1
  have "\<forall>r \<in> set (rows_of T). row_fits r"
    and "distinct (map row_key (markov (working cn1) n @ rows_of T))"
    by simp_all
  from copy_expert_quiet [OF q1 te this] obtain cn2 where
    c: "copy_expert n (rows_of T) cn1 = (cn2, True)" and q2: "faults cn2 = []"
    and e2: "markov (working cn2) n = markov (working cn1) n @ rows_of T"
    by blast
  from commit_quiet [OF q2] obtain cn3 where
    "commit cn2 = (cn3, True)" "faults cn3 = []" "working cn3 = working cn2"
    "committed cn3 = working cn2"
    by blast
  with t c e1 e2 show ?thesis by (simp add: save_markov_frequencies_bulk_def)
qed

lemma order_table_row:
  assumes "order_table n T" and "map_of T c = Some row"
  shows "distinct (map fst row)" and "\<forall>(s, f) \<in> set row. 0 < f"
proof -
  from assms(2) have "(c, row) \<in> set T" by (rule map_of_SomeD)
  with assms(1) show "distinct (map fst row)" and "\<forall>(s, f) \<in> set row. 0 < f"
    by (auto simp: order_table_def)
qed

lemma sum_list_pos_rows:
  "rows \<noteq> [] \<Longrightarrow> \<forall>(s, f) \<in> set rows. (0::int) < f \<Longrightarrow> 0 < sum_list (map snd rows)"
proof (induction rows)
  case Nil
  then show ?case by simp
next
  case (Cons p rows)
  obtain s f where p: "p = (s, f)" by (cases p)
  with Cons.prems have f: "0 < f" and rest: "\<forall>(s, f) \<in> set rows. 0 < f" by auto
  have "0 \<le> sum_list (map snd rows)"
    using Cons.IH rest by (cases "rows = []") auto
  with f p show ?case by simp
qed

lemma query_after_load:
  assumes q: "faults cn = []" and te: "table_exists n"
    and tab: "markov (working cn) n = rows_of T" and ot: "order_table n T"
  shows "map_of T c = Some row \<Longrightarrow>
           map_of (fst (get_markov_probabilities n c cn))
             = (\<lambda>s. map_option (\<lambda>f. truediv f (dict_total row)) (map_of row s))"
    and "map_of T c = None \<Longrightarrow> fst (get_markov_probabilities n c cn) = []"
proof -
  from ot have d: "distinct (map fst T)" by (simp add: order_table_def)
  have sel: "select_where_context c (markov (working cn) n)
      = (case map_of T c of None \<Rightarrow> [] | Some row \<Rightarrow> row)"
    unfolding tab using d by (rule select_rows_of)
  {
    assume "map_of T c = None"
    with sel show "fst (get_markov_probabilities n c cn) = []"
      by (simp add: get_markov_probabilities_quiet [OF q te])
  }
  {
    assume some: "map_of T c = Some row"
    from order_table_row [OF ot some] have dr: "distinct (map fst row)"
      and pos: "\<forall>(s, f) \<in> set row. 0 < f" by blast+
    show "map_of (fst (get_markov_probabilities n c cn))
             = (\<lambda>s. map_option (\<lambda>f. truediv f (dict_total row)) (map_of row s))"
    proof (cases "row = []")
      case True
      with sel some show ?thesis
        by (simp add: get_markov_probabilities_quiet [OF q te])
    next
      case False
      from False pos have tp: "0 < sum_list (map snd row)" by (rule sum_list_pos_rows)
      have "fst (get_markov_probabilities n c cn) = probabilities_of row"
        using sel some False by (simp add: get_markov_probabilities_quiet [OF q te])
      also have "\<dots> = map (\<lambda>(symbol, freq). (symbol, truediv freq (dict_total row))) row"
        using tp by (simp add: probabilities_of_distinct [OF dr] dict_total_def)
      finally show ?thesis
        by (simp only: map_of_map) (simp add: fun_eq_iff)
    qed
  }
qed

text \<open>
  C1, amended. For an order \<open>n\<close> from 1 to 13 and an order table \<open>T\<close>, when no
  storage failure occurs, \<open>save_markov_frequencies\<close> and
  \<open>save_markov_frequencies_bulk\<close> return without an error, and afterwards the query
  \<open>get_markov_probabilities(n, c)\<close> on the same connection returns, for a context
  \<open>c\<close> of \<open>T\<close>, the symbols of \<open>T[c]\<close>, each with the float quotient of its
  count by the sum of the counts of \<open>T[c]\<close> (the float nearest to the exact
  quotient), and the empty dictionary for a context that is not in \<open>T\<close>. The table
  of order \<open>n\<close> the connection sees holds exactly the rows of \<open>T\<close>; what the
  connection sees is persisted (committed) after the bulk load, and after the batched
  load when \<open>T\<close> has at least one row (the batched load commits once for every batch
  of rows).
\<close>

theorem save_then_query_normalized:
  assumes "1 \<le> n" and "n \<le> 13" and "order_table n T" and "faults cn = []"
    and "saved = save_markov_frequencies n T cn
         \<or> saved = save_markov_frequencies_bulk n T NoFsFault cn"
  shows "snd saved = None
    \<and> (\<forall>c row. map_of T c = Some row \<longrightarrow>
          map_of (fst (get_markov_probabilities n c (fst saved)))
            = (\<lambda>s. map_option (\<lambda>f. truediv f (dict_total row)) (map_of row s)))
    \<and> (\<forall>c. map_of T c = None \<longrightarrow> fst (get_markov_probabilities n c (fst saved)) = [])
    \<and> markov (working (fst saved)) n = rows_of T
    \<and> (saved = save_markov_frequencies_bulk n T NoFsFault cn \<or> rows_of T \<noteq> [] \<longrightarrow>
          committed (fst saved) = working (fst saved))"
proof -
  have te: "table_exists n" using assms(1,2) by (simp add: table_exists_def)
  let ?bulk = "saved = save_markov_frequencies_bulk n T NoFsFault cn"
  have "\<exists>cn'. saved = (cn', None) \<and> faults cn' = [] \<and> markov (working cn') n = rows_of T
      \<and> (?bulk \<or> rows_of T \<noteq> [] \<longrightarrow> committed cn' = working cn')"
  proof (cases ?bulk)
    case True
    with save_markov_frequencies_bulk_quiet [OF assms(4,1,2,3)] show ?thesis by metis
  next
    case False
    with assms(5) have "saved = save_markov_frequencies n T cn" by simp
    with save_markov_frequencies_quiet [OF assms(4,1,2,3)] False show ?thesis by metis
  qed
  then obtain cn' where s: "saved = (cn', None)" and q: "faults cn' = []"
    and tab: "markov (working cn') n = rows_of T"
    and per: "?bulk \<or> rows_of T \<noteq> [] \<longrightarrow> committed cn' = working cn'"
    by blast
  note ql = query_after_load [OF q te tab assms(3)]
  have fs: "fst saved = cn'" and sn: "snd saved = None" using s by simp_all
  show ?thesis
    unfolding fs
  proof (intro conjI allI impI)
    show "snd saved = None" by (rule sn)
  next
    fix c row assume "map_of T c = Some row"
    then show "map_of (fst (get_markov_probabilities n c cn'))
        = (\<lambda>s. map_option (\<lambda>f. truediv f (dict_total row)) (map_of row s))"
      by (rule ql(1))
  next
    fix c assume "map_of T c = None"
    then show "fst (get_markov_probabilities n c cn') = []" by (rule ql(2))
  next
    show "markov (working cn') n = rows_of T" by (rule tab)
  next
    assume "?bulk \<or> rows_of T \<noteq> []"
    with per show "committed cn' = working cn'" by blast
  qed
qed

lemma round_to_double_one: "round_to_double 1 = 1"
  by code_simp

lemma truediv_self: "a \<noteq> 0 \<Longrightarrow> truediv a a = 1"
  by (simp add: truediv_def round_to_double_one)

lemma truediv_2_3: "truediv 2 3 = 6004799503160661 / 9007199254740992"
  by code_simp

lemma truediv_1_3: "truediv 1 3 = 6004799503160661 / 18014398509481984"
  by code_simp

lemmas truediv_values = truediv_self truediv_2_3 truediv_1_3

lemma T0_order_table:
  "order_table 1 [([1084], [([1072], 2)]), ([1072], [([1084], 1)])]"
  by (simp add: order_table_def ALLOWED_CHARS_def)

lemma save_query_run:
  "fst (get_markov_probabilities 1 [1084]
      (fst (save_markov_frequencies 1 [([1084], [([1072], 2)]), ([1072], [([1084], 1)])]
          (fresh_connection []))))
   = [([1072], 1)]"
  by (simp add: save_markov_frequencies_def execute_truncate_def next_fault_def table_exists_def
      set_markov_def fresh_connection_def empty_tables_def rows_of_def save_batches.simps
      batch_size_def execute_insert_def row_fits_def row_key_def commit_def
      get_markov_probabilities_def select_where_context_def probabilities_of_def truediv_values)

text \<open>
  C1 as stated fails. After the table \<open>{"m": {"a": 2}, "a": {"m": 1}}\<close> (in
  Russian letters: the counts of the text "mama" at order 1) is saved, the query for
  the context "m" does not return the stored row \<open>{"a": 2}\<close>: it returns
  \<open>{"a": 1.0}\<close>, the count divided by the total of the row.
\<close>

theorem save_then_query_counterexample:
  "fst (get_markov_probabilities 1 [1084]
      (fst (save_markov_frequencies 1 [([1084], [([1072], 2)]), ([1072], [([1084], 1)])]
          (fresh_connection []))))
   \<noteq> [([1072], 2)]"
  using save_query_run by simp

lemma T1_order_table:
  "order_table 1 [([1084], [([1072], 2), ([1099], 1)]), ([1072], [([1084], 1)])]"
  by (simp add: order_table_def ALLOWED_CHARS_def)

text \<open>
  The table \<open>{"m": {"a": 2, "y": 1}, "a": {"m": 1}}\<close> through the bulk load: the
  query for "m" maps "a" to the float \<open>0.6666666666666666\<close> and "y" to
  \<open>0.3333333333333333\<close>, a context that is not in the table gets the empty
  dictionary, and the three rows are persisted.
\<close>

theorem save_then_query_normalized_witness:
  "snd (save_markov_frequencies_bulk 1
         [([1084], [([1072], 2), ([1099], 1)]), ([1072], [([1084], 1)])]
         NoFsFault (fresh_connection [])) = None
   \<and> map_of (fst (get_markov_probabilities 1 [1084]
        (fst (save_markov_frequencies_bulk 1
           [([1084], [([1072], 2), ([1099], 1)]), ([1072], [([1084], 1)])]
           NoFsFault (fresh_connection []))))) [1072]
       = Some (6004799503160661 / 9007199254740992)
   \<and> map_of (fst (get_markov_probabilities 1 [1084]
        (fst (save_markov_frequencies_bulk 1
           [([1084], [([1072], 2), ([1099], 1)]), ([1072], [([1084], 1)])]
           NoFsFault (fresh_connection []))))) [1099]
       = Some (6004799503160661 / 18014398509481984)
   \<and> fst (get_markov_probabilities 1 [1073]
        (fst (save_markov_frequencies_bulk 1
           [([1084], [([1072], 2), ([1099], 1)]), ([1072], [([1084], 1)])]
           NoFsFault (fresh_connection [])))) = []
   \<and> markov (committed (fst (save_markov_frequencies_bulk 1
           [([1084], [([1072], 2), ([1099], 1)]), ([1072], [([1084], 1)])]
           NoFsFault (fresh_connection [])))) 1
       = [([1084], [1072], 2), ([1084], [1099], 1), ([1072], [1084], 1)]"
proof -
  let ?T = "[([1084], [([1072], 2), ([1099], 1)]), ([1072], [([1084], 1)])]
              :: (ustring, (ustring, int) dict) dict"
  let ?saved = "save_markov_frequencies_bulk 1 ?T NoFsFault (fresh_connection [])"
  have q: "faults (fresh_connection []) = []" by (simp add: fresh_connection_def)
  have d: "?saved = save_markov_frequencies 1 ?T (fresh_connection []) \<or> ?saved = ?saved"
    by simp
  note w = save_then_query_normalized [OF _ _ T1_order_table q d]
  have a: "map_of ?T [1084] = Some [([1072], 2), ([1099], 1)]" and b: "map_of ?T [1073] = None"
    by simp_all
  from w have "snd ?saved = None" by simp
  moreover from w a have m: "map_of (fst (get_markov_probabilities 1 [1084] (fst ?saved)))
      = (\<lambda>s. map_option (\<lambda>f. truediv f (dict_total [([1072 :: nat], 2), ([1099], 1)]))
            (map_of [([1072], 2), ([1099], 1)] s))"
    by simp
  have "map_of (fst (get_markov_probabilities 1 [1084] (fst ?saved))) [1072]
      = Some (6004799503160661 / 9007199254740992)"
    unfolding m by (simp add: dict_total_def truediv_values)
  moreover have "map_of (fst (get_markov_probabilities 1 [1084] (fst ?saved))) [1099]
      = Some (6004799503160661 / 18014398509481984)"
    unfolding m by (simp add: dict_total_def truediv_values)
  moreover from w b have "fst (get_markov_probabilities 1 [1073] (fst ?saved)) = []"
    by simp
  moreover from w have "markov (working (fst ?saved)) 1 = rows_of ?T"
    and "committed (fst ?saved) = working (fst ?saved)"
    by simp_all
  then have "markov (committed (fst ?saved)) 1
      = [([1084], [1072], 2), ([1084], [1099], 1), ([1072], [1084], 1)]"
    by (simp add: rows_of_def)
  ultimately show ?thesis by blast
qed

subsection \<open>The bulk load under failures\<close>

lemma copy_expert_committed:
  assumes "copy_expert n rows cn = (cn', ok)"
  shows "committed cn' = committed cn"
proof -
  obtain f cn1 where nf: "next_fault cn = (f, cn1)" by (cases "next_fault cn")
  then have c1: "committed cn1 = committed cn" by (simp add: next_fault_snd)
  show ?thesis
  proof (cases "f \<or> \<not> table_exists n")
    case True
    with assms nf c1 show ?thesis by (auto simp: copy_expert_def)
  next
    case False
    with assms nf have "insert_rows n rows cn1 = (cn', ok)" by (simp add: copy_expert_def)
    then have "committed cn' = committed cn1" by (rule insert_rows_committed)
    with c1 show ?thesis by simp
  qed
qed

lemma copy_expert_ok:
  assumes "copy_expert n rows cn = (cn', True)"
  shows "markov (working cn') n = markov (working cn) n @ rows"
proof -
  obtain f cn1 where nf: "next_fault cn = (f, cn1)" by (cases "next_fault cn")
  then have w1: "working cn1 = working cn" by (simp add: next_fault_snd)
  from assms nf have "insert_rows n rows cn1 = (cn', True)"
    by (auto simp: copy_expert_def split: if_splits)
  then have "markov (working cn') n = markov (working cn1) n @ rows" by (rule insert_rows_ok)
  with w1 show ?thesis by simp
qed

text \<open>
  C8. Whatever fails and whenever, \<open>save_markov_frequencies_bulk\<close> leaves no
  partial table behind. When it ends with a storage error, what is persisted is what
  was persisted before the call; when it ends with any error, the transaction has been
  rolled back (the connection sees the persisted state again); and the persisted table
  of order \<open>n\<close> is always either the old one or all the rows of the new one.
\<close>

theorem bulk_load_all_or_nothing:
  "(snd (save_markov_frequencies_bulk n T fs cn) = Some DatabaseError \<longrightarrow>
       committed (fst (save_markov_frequencies_bulk n T fs cn)) = committed cn)
   \<and> (snd (save_markov_frequencies_bulk n T fs cn) \<noteq> None \<longrightarrow>
       working (fst (save_markov_frequencies_bulk n T fs cn))
         = committed (fst (save_markov_frequencies_bulk n T fs cn)))
   \<and> (markov (committed (fst (save_markov_frequencies_bulk n T fs cn))) n
         = markov (committed cn) n
       \<or> markov (committed (fst (save_markov_frequencies_bulk n T fs cn))) n = rows_of T)"
proof -
  obtain cn1 ok1 where t: "execute_truncate n cn = (cn1, ok1)"
    by (cases "execute_truncate n cn")
  then have c1: "committed cn1 = committed cn" by (rule execute_truncate_committed)
  show ?thesis
  proof (cases "ok1 \<and> fs \<noteq> TempFileFails")
    case False
    with t c1 show ?thesis by (auto simp: save_markov_frequencies_bulk_def)
  next
    case True
    with t have e1: "markov (working cn1) n = []" by (simp add: execute_truncate_ok)
    obtain cn2 ok2 where c: "copy_expert n (rows_of T) cn1 = (cn2, ok2)"
      by (cases "copy_expert n (rows_of T) cn1")
    then have c2: "committed cn2 = committed cn1" by (rule copy_expert_committed)
    show ?thesis
    proof (cases ok2)
      case False
      with True t c c1 c2 show ?thesis by (simp add: save_markov_frequencies_bulk_def)
    next
      case ok2: True
      with c e1 have e2: "markov (working cn2) n = rows_of T" by (simp add: copy_expert_ok)
      obtain cn3 ok3 where m: "commit cn2 = (cn3, ok3)" by (cases "commit cn2")
      from commit_cases [OF m] have w3: "working cn3 = working cn2"
        and c3: "committed cn3 = (if ok3 then working cn2 else committed cn2)"
        by simp_all
      show ?thesis
      proof (cases ok3)
        case False
        with True ok2 t c m c1 c2 c3 show ?thesis
          by (simp add: save_markov_frequencies_bulk_def)
      next
        case ok3: True
        with True ok2 t c m c3 w3 e2 show ?thesis
          by (simp add: save_markov_frequencies_bulk_def)
      qed
    qed
  qed
qed

lemma bulk_fault_run:
  "snd (save_markov_frequencies_bulk 1 [([1084], [([1072], 2)]), ([1072], [([1084], 1)])]
         NoFsFault (stocked_connection [False, False, False, True])) = Some DatabaseError"
  by (simp add: save_markov_frequencies_bulk_def execute_truncate_def next_fault_def
      table_exists_def set_markov_def stocked_connection_def rows_of_def copy_expert_def
      execute_insert_def row_fits_def row_key_def rollback_def)

text \<open>
  A run in which the truncation and the first row of the copy succeed and the second
  row fails: the row that was persisted before is still there, and the open
  transaction shows it again.
\<close>

theorem bulk_load_all_or_nothing_witness:
  "snd (save_markov_frequencies_bulk 1 [([1084], [([1072], 2)]), ([1072], [([1084], 1)])]
         NoFsFault (stocked_connection [False, False, False, True])) = Some DatabaseError
   \<and> markov (committed (fst (save_markov_frequencies_bulk 1
         [([1084], [([1072], 2)]), ([1072], [([1084], 1)])]
         NoFsFault (stocked_connection [False, False, False, True])))) 1 = [([1073], [1074], 5)]
   \<and> markov (working (fst (save_markov_frequencies_bulk 1
         [([1084], [([1072], 2)]), ([1072], [([1084], 1)])]
         NoFsFault (stocked_connection [False, False, False, True])))) 1 = [([1073], [1074], 5)]"
  using bulk_load_all_or_nothing [of 1 "[([1084], [([1072], 2)]), ([1072], [([1084], 1)])]"
      NoFsFault "stocked_connection [False, False, False, True]"]
    bulk_fault_run
  by (simp add: stocked_connection_def)

subsection \<open>The lookup guard\<close>

text \<open>
  C9. For a context of length 0 or of more than 13 characters \<open>get_probabilities\<close>
  returns the empty dictionary and leaves the connection as it was: no statement is
  sent to the store (the counter of statements and the schedule of failures are
  unchanged), and nothing is raised.
\<close>

theorem get_probabilities_out_of_range:
  "length context = 0 \<or> 13 < length context \<Longrightarrow> get_probabilities context cn = ([], cn)"
  by (auto simp: get_probabilities_def)

text \<open>
  On a connection whose next statement would fail, the empty context and a context of
  14 characters are answered without a statement; a context of one character costs
  one statement.
\<close>

theorem get_probabilities_out_of_range_witness:
  "get_probabilities [] (stocked_connection [True]) = ([], stocked_connection [True])
   \<and> get_probabilities (replicate 14 1073) (stocked_connection [True])
       = ([], stocked_connection [True])
   \<and> executed (snd (get_probabilities (replicate 14 1073) (stocked_connection [True]))) = 0
   \<and> fst (get_probabilities [1073] (stocked_connection [])) = [([1074], 1)]
   \<and> executed (snd (get_probabilities [1073] (stocked_connection []))) = 1"
proof -
  have "get_probabilities [] (stocked_connection [True]) = ([], stocked_connection [True])"
    by (rule get_probabilities_out_of_range) simp
  moreover have r: "get_probabilities (replicate 14 1073) (stocked_connection [True])
       = ([], stocked_connection [True])"
    by (rule get_probabilities_out_of_range) simp
  moreover from r have "executed (snd (get_probabilities (replicate 14 1073) (stocked_connection [True]))) = 0"
    by (simp add: stocked_connection_def)
  moreover have "fst (get_probabilities [1073] (stocked_connection [])) = [([1074], 1)]"
    "executed (snd (get_probabilities [1073] (stocked_connection []))) = 1"
    by (simp_all add: get_probabilities_def get_markov_probabilities_def next_fault_def
        table_exists_def stocked_connection_def select_where_context_def probabilities_of_def
        truediv_self)
  ultimately show ?thesis by blast
qed

subsection \<open>Generation: the back-off chain\<close>

lemma get_markov_probabilities_state:
  "get_markov_probabilities n c cn = (p, cn') \<Longrightarrow>
     working cn' = working cn \<and> committed cn' = committed cn
     \<and> (faults cn = [] \<longrightarrow> faults cn' = [])"
  by (auto simp: get_markov_probabilities_def next_fault_def Let_def split: if_splits)

lemma get_probabilities_state:
  "get_probabilities c cn = (p, cn') \<Longrightarrow>
     working cn' = working cn \<and> committed cn' = committed cn
     \<and> (faults cn = [] \<longrightarrow> faults cn' = [])"
  by (auto simp: get_probabilities_def Let_def split: if_splits
      dest: get_markov_probabilities_state)

lemma get_overall_probabilities_state:
  "get_overall_probabilities cn = (p, cn') \<Longrightarrow>
     working cn' = working cn \<and> committed cn' = committed cn
     \<and> (faults cn = [] \<longrightarrow> faults cn' = [])"
  by (auto simp: get_overall_probabilities_def next_fault_def split: if_splits)

lemma backoff_state:
  "backoff ctx probs cn = (ctx', probs', cn') \<Longrightarrow>
     working cn' = working cn \<and> (faults cn = [] \<longrightarrow> faults cn' = [])"
proof (induction ctx arbitrary: probs cn)
  case Nil
  then show ?case by (simp add: backoff.simps)
next
  case (Cons x xs)
  show ?case
  proof (cases "probs = [] \<and> xs \<noteq> []")
    case True
    obtain p1 cn1 where g: "get_probabilities xs cn = (p1, cn1)"
      by (cases "get_probabilities xs cn")
    have "backoff (x # xs) probs cn = backoff xs p1 cn1"
      using True g by (subst backoff.simps) simp
    with Cons.prems have "backoff xs p1 cn1 = (ctx', probs', cn')" by simp
    from Cons.IH [OF this] get_probabilities_state [OF g] show ?thesis by simp
  next
    case False
    then have "backoff (x # xs) probs cn = (x # xs, probs, cn)"
      by (subst backoff.simps) auto
    with Cons.prems show ?thesis by simp
  qed
qed

lemma backoff_queries:
  assumes "get_probabilities ctx cn = (probs, cn1)"
    and "backoff ctx probs cn1 = (ctx', probs', cn2)"
  shows "\<exists>k. k \<le> length ctx - 1 \<and> ctx' = drop k ctx
           \<and> (\<forall>j < k. fst (get_probabilities (drop j ctx) (after_queries cn ctx j)) = [])
           \<and> get_probabilities ctx' (after_queries cn ctx k) = (probs', cn2)
           \<and> (probs' = [] \<longrightarrow> k = length ctx - 1)"
  using assms
proof (induction ctx arbitrary: cn probs cn1)
  case Nil
  then show ?case by (simp add: backoff.simps)
next
  case (Cons x xs)
  show ?case
  proof (cases "probs = [] \<and> xs \<noteq> []")
    case True
    obtain p1 cn1' where g: "get_probabilities xs cn1 = (p1, cn1')"
      by (cases "get_probabilities xs cn1")
    have "backoff (x # xs) probs cn1 = backoff xs p1 cn1'"
      using True g by (subst backoff.simps) simp
    with Cons.prems(2) have b: "backoff xs p1 cn1' = (ctx', probs', cn2)" by simp
    from Cons.IH [OF g b] obtain k where k: "k \<le> length xs - 1" "ctx' = drop k xs"
      "\<forall>j < k. fst (get_probabilities (drop j xs) (after_queries cn1 xs j)) = []"
      "get_probabilities ctx' (after_queries cn1 xs k) = (probs', cn2)"
      "probs' = [] \<longrightarrow> k = length xs - 1"
      by blast
    have aq: "\<And>j. after_queries cn (x # xs) (Suc j) = after_queries cn1 xs j"
      using Cons.prems(1) by simp
    have "\<forall>j < Suc k. fst (get_probabilities (drop j (x # xs)) (after_queries cn (x # xs) j)) = []"
    proof (intro allI impI)
      fix j assume "j < Suc k"
      then show "fst (get_probabilities (drop j (x # xs)) (after_queries cn (x # xs) j)) = []"
        using k(3) True Cons.prems(1) aq by (cases j) auto
    qed
    moreover from True k(1) have "Suc k \<le> length (x # xs) - 1"
      by (cases xs) auto
    moreover from True k(5) have "probs' = [] \<longrightarrow> Suc k = length (x # xs) - 1"
      by (cases xs) auto
    moreover from k(4) aq
    have "get_probabilities ctx' (after_queries cn (x # xs) (Suc k)) = (probs', cn2)"
      by simp
    ultimately show ?thesis using k(2) by (intro exI [of _ "Suc k"]) simp
  next
    case False
    then have "backoff (x # xs) probs cn1 = (x # xs, probs, cn1)"
      by (subst backoff.simps) auto
    with Cons.prems(2) have "ctx' = x # xs" "probs' = probs" "cn2 = cn1" by simp_all
    with False Cons.prems(1) show ?thesis by (intro exI [of _ 0]) auto
  qed
qed

lemma after_queries_Suc:
  "after_queries cn ctx (Suc j) = snd (get_probabilities (drop j ctx) (after_queries cn ctx j))"
proof (induction j arbitrary: cn ctx)
  case 0
  then show ?case by simp
next
  case (Suc j)
  have "after_queries cn ctx (Suc (Suc j))
      = after_queries (snd (get_probabilities ctx cn)) (drop 1 ctx) (Suc j)"
    by simp
  also have "\<dots> = snd (get_probabilities (drop j (drop 1 ctx))
      (after_queries (snd (get_probabilities ctx cn)) (drop 1 ctx) j))"
    by (rule Suc.IH)
  finally show ?case by simp
qed

lemma select_distribution_queries:
  assumes "select_distribution ctx cn = (ctx', probs, cn')"
  shows "\<exists>k. k \<le> length ctx - 1 \<and> ctx' = drop k ctx
            \<and> (\<forall>j < k. fst (get_probabilities (drop j ctx) (after_queries cn ctx j)) = [])
            \<and> (if fst (get_probabilities ctx' (after_queries cn ctx k)) \<noteq> []
               then probs = fst (get_probabilities ctx' (after_queries cn ctx k))
               else k = length ctx - 1
                 \<and> probs = fst (get_overall_probabilities (after_queries cn ctx (Suc k))))"
proof -
  obtain p0 cn1 where g: "get_probabilities ctx cn = (p0, cn1)"
    by (cases "get_probabilities ctx cn")
  obtain c1 p1 cn2 where b: "backoff ctx p0 cn1 = (c1, p1, cn2)"
    by (cases "backoff ctx p0 cn1")
  from backoff_queries [OF g b] obtain k where k: "k \<le> length ctx - 1"
    "c1 = drop k ctx"
    "\<forall>j < k. fst (get_probabilities (drop j ctx) (after_queries cn ctx j)) = []"
    "get_probabilities c1 (after_queries cn ctx k) = (p1, cn2)"
    "p1 = [] \<longrightarrow> k = length ctx - 1"
    by blast
  from k(2,4) have cn2: "cn2 = after_queries cn ctx (Suc k)"
    by (subst after_queries_Suc) simp
  obtain ov cn3 where o: "get_overall_probabilities cn2 = (ov, cn3)"
    by (cases "get_overall_probabilities cn2")
  from assms g b o have "(ctx', probs, cn') = (if p1 = [] then (c1, ov, cn3) else (c1, p1, cn2))"
    by (cases "p1 = []") (simp_all add: select_distribution_def)
  with o have c: "ctx' = c1"
    and p: "probs = (if p1 = [] then fst (get_overall_probabilities cn2) else p1)"
    by (cases "p1 = []"; simp)+
  have "if fst (get_probabilities ctx' (after_queries cn ctx k)) \<noteq> []
        then probs = fst (get_probabilities ctx' (after_queries cn ctx k))
        else k = length ctx - 1
          \<and> probs = fst (get_overall_probabilities (after_queries cn ctx (Suc k)))"
  proof (cases "p1 = []")
    case True
    with k(4,5) c p cn2 show ?thesis by (simp only: if_True if_False not_not) simp
  next
    case False
    with k(4) c p show ?thesis by (simp only: if_True if_False) simp
  qed
  with k(1,2,3) c show ?thesis by blast
qed

lemma generate_step_unfold:
  assumes "select_distribution ctx cn = (ctx', probs, cn')"
  shows "generate_step rnd \<lparr>result = r, current_context = ctx, conn = cn, draws = d\<rparr>
        = (if probs = []
           then Inr \<lparr>result = r @ [32], current_context = py_tail 13 (ctx' @ [32]),
                    conn = cn', draws = d\<rparr>
           else case choices (fst (unzip_items probs)) (snd (unzip_items probs)) (rnd d) of
                  Inl e \<Rightarrow> Inl e
                | Inr next_char \<Rightarrow>
                    Inr \<lparr>result = r @ next_char,
                         current_context = py_tail 13 (ctx' @ next_char),
                         conn = cn', draws = Suc d\<rparr>)"
  using assms by (simp add: generate_step_def unzip_items_def split: sum.split)

text \<open>
  C3. One generation step, for every stored content and every schedule of storage
  failures (a failed query is answered with the empty dictionary, as an unseen
  context is). The step queries the current context and then the context without its
  first 1, 2, ... characters; \<open>after_queries cn ctx j\<close> is the connection as the
  first \<open>j\<close> of these queries leave it. The context the step settles on is the
  current context without its first \<open>k\<close> characters, for some \<open>k\<close> that leaves at
  least one character; every query before that one (for \<open>j < k\<close> characters
  dropped) returned the empty dictionary. If the query for the context settled on is
  not empty, its result is the distribution of the step; otherwise the context is down
  to its last character (\<open>k = len - 1\<close>) and the overall distribution is used. If
  that distribution is empty too, the step appends a space and draws no random value;
  otherwise it appends what the sampler returns for the keys and the values of the
  distribution.
\<close>

theorem generation_backoff_order:
  assumes "select_distribution ctx cn = (ctx', probs, cn')"
  shows "(\<exists>k. k \<le> length ctx - 1 \<and> ctx' = drop k ctx
            \<and> (\<forall>j < k. fst (get_probabilities (drop j ctx) (after_queries cn ctx j)) = [])
            \<and> (if fst (get_probabilities ctx' (after_queries cn ctx k)) \<noteq> []
               then probs = fst (get_probabilities ctx' (after_queries cn ctx k))
               else k = length ctx - 1
                 \<and> probs = fst (get_overall_probabilities (after_queries cn ctx (Suc k)))))
    \<and> generate_step rnd \<lparr>result = r, current_context = ctx, conn = cn, draws = d\<rparr>
        = (if probs = []
           then Inr \<lparr>result = r @ [32], current_context = py_tail 13 (ctx' @ [32]),
                    conn = cn', draws = d\<rparr>
           else case choices (fst (unzip_items probs)) (snd (unzip_items probs)) (rnd d) of
                  Inl e \<Rightarrow> Inl e
                | Inr next_char \<Rightarrow>
                    Inr \<lparr>result = r @ next_char,
                         current_context = py_tail 13 (ctx' @ next_char),
                         conn = cn', draws = Suc d\<rparr>)"
  using select_distribution_queries [OF assms] generate_step_unfold [OF assms]
  by (rule conjI)

lemma select_distribution_run:
  "fst (select_distribution [1040, 1084] (demo_connection [])) = [1084]"
  "fst (snd (select_distribution [1040, 1084] (demo_connection [])))
     = [([1072], 6004799503160661 / 9007199254740992), ([1099], 6004799503160661 / 18014398509481984)]"
  by (simp_all add: select_distribution_def get_probabilities_def get_markov_probabilities_def
      next_fault_def table_exists_def demo_connection_def demo_tables_def
      select_where_context_def probabilities_of_def backoff.simps truediv_values)

text \<open>
  A context of two characters that is unseen at length 2 (the store has no rows of
  order 2) and whose last character has rows of order 1: the step settles on the last
  character and takes the order-1 distribution, not the overall one.
\<close>

theorem generation_backoff_order_witness:
  "fst (select_distribution [1040, 1084] (demo_connection [])) = [1084]
   \<and> fst (snd (select_distribution [1040, 1084] (demo_connection [])))
       = [([1072], 6004799503160661 / 9007199254740992), ([1099], 6004799503160661 / 18014398509481984)]
   \<and> fst (get_probabilities [1040, 1084] (demo_connection [])) = []
   \<and> fst (get_probabilities [1084] (snd (get_probabilities [1040, 1084] (demo_connection []))))
       = [([1072], 6004799503160661 / 9007199254740992), ([1099], 6004799503160661 / 18014398509481984)]"
proof -
  let ?cn = "demo_connection []"
  let ?ctx = "[1040, 1084] :: ustring"
  let ?p = "[([1072], 6004799503160661 / 9007199254740992), ([1099], 6004799503160661 / 18014398509481984)] :: (ustring, rat) dict"
  have s: "select_distribution ?ctx ?cn = ([1084], ?p, snd (snd (select_distribution ?ctx ?cn)))"
    using select_distribution_run by (simp add: prod_eq_iff)
  from generation_backoff_order [OF s, THEN conjunct1]
  obtain k where k: "k \<le> length ?ctx - 1" "[1084] = drop k ?ctx"
    "\<forall>j < k. fst (get_probabilities (drop j ?ctx) (after_queries ?cn ?ctx j)) = []"
    "if fst (get_probabilities [1084] (after_queries ?cn ?ctx k)) \<noteq> []
     then ?p = fst (get_probabilities [1084] (after_queries ?cn ?ctx k))
     else k = length ?ctx - 1
       \<and> ?p = fst (get_overall_probabilities (after_queries ?cn ?ctx (Suc k)))"
    by blast
  from k(1,2) have k1: "k = 1" by (cases k) auto
  with k(3) have a: "fst (get_probabilities ?ctx ?cn) = []" by simp
  have aq: "after_queries ?cn ?ctx 1 = snd (get_probabilities ?ctx ?cn)" by simp
  have "fst (get_probabilities [1084] (snd (get_probabilities ?ctx ?cn))) \<noteq> []"
    by (simp add: get_probabilities_def get_markov_probabilities_def next_fault_def
        table_exists_def demo_connection_def demo_tables_def select_where_context_def
        probabilities_of_def truediv_values)
  with k(4) k1 aq have b: "fst (get_probabilities [1084] (snd (get_probabilities ?ctx ?cn))) = ?p"
    by simp
  from a b select_distribution_run show ?thesis by simp
qed

subsection \<open>Generation: every step appends one character\<close>

lemma set_dict_set: "set (dict_set k v d) \<subseteq> insert (k, v) (set d)"
  by (induction k v d rule: dict_set.induct) auto

lemma set_foldl_dict_set:
  "set (foldl (\<lambda>probabilities (symbol, freq). dict_set symbol (g freq) probabilities) acc rows)
     \<subseteq> set acc \<union> (\<lambda>(symbol, freq). (symbol, g freq)) ` set rows"
proof (induction rows arbitrary: acc)
  case Nil
  then show ?case by simp
next
  case (Cons p rows)
  obtain s f where p: "p = (s, f)" by (cases p)
  have "set (foldl (\<lambda>probabilities (symbol, freq). dict_set symbol (g freq) probabilities)
          (dict_set s (g f) acc) rows)
      \<subseteq> set (dict_set s (g f) acc) \<union> (\<lambda>(symbol, freq). (symbol, g freq)) ` set rows"
    by (rule Cons.IH)
  also have "\<dots> \<subseteq> insert (s, g f) (set acc) \<union> (\<lambda>(symbol, freq). (symbol, g freq)) ` set rows"
    using set_dict_set [of s "g f" acc] by blast
  finally show ?case using p by auto
qed

lemma probabilities_of_sampleable:
  assumes "\<forall>(s, f) \<in> set rows. length s = 1 \<and> 0 < f"
  shows "sampleable (probabilities_of rows)"
proof (cases "rows = []")
  case True
  then show ?thesis by (simp add: probabilities_of_def sampleable_def)
next
  case False
  from assms have "\<forall>(s, f) \<in> set rows. 0 < f" by auto
  with False have tp: "0 < sum_list (map snd rows)" by (rule sum_list_pos_rows)
  let ?g = "\<lambda>freq. if sum_list (map snd rows) > 0
                  then truediv freq (sum_list (map snd rows)) else 0"
  have sub: "set (probabilities_of rows) \<subseteq> (\<lambda>(symbol, freq). (symbol, ?g freq)) ` set rows"
    unfolding probabilities_of_def Let_def
    using set_foldl_dict_set [of ?g "[]" rows] by simp
  show ?thesis
    unfolding sampleable_def
  proof (intro ballI)
    fix e assume "e \<in> set (probabilities_of rows)"
    with sub obtain s f where sf: "(s, f) \<in> set rows" and e: "e = (s, ?g f)" by auto
    from assms sf have "length s = 1" "0 < f" by auto
    with tp e show "case e of (symbol, weight) \<Rightarrow> length symbol = 1 \<and> 0 < weight"
      by (simp add: truediv_pos)
  qed
qed

lemma select_where_context_mem:
  "(s, f) \<in> set (select_where_context c tab) \<Longrightarrow> (c, s, f) \<in> set tab"
  by (auto simp: select_where_context_def)

lemma sampleable_Nil: "sampleable []"
  by (simp add: sampleable_def)

lemma get_markov_probabilities_sampleable:
  assumes "store_invariant (working cn)"
  shows "sampleable (fst (get_markov_probabilities n c cn))"
proof (cases "fst (next_fault cn) \<or> \<not> table_exists n")
  case True
  then show ?thesis
    by (auto simp: get_markov_probabilities_def sampleable_Nil split: prod.splits)
next
  case False
  then have n: "n \<in> {1 .. 13}" by (simp add: table_exists_def)
  let ?rows = "select_where_context c (markov (working cn) n)"
  have "\<forall>(s, f) \<in> set ?rows. length s = 1 \<and> 0 < f"
  proof (clarify)
    fix s f assume "(s, f) \<in> set ?rows"
    then have "(c, s, f) \<in> set (markov (working cn) n)" by (rule select_where_context_mem)
    with assms n show "length s = 1 \<and> 0 < f" by (fastforce simp: store_invariant_def)
  qed
  then have "sampleable (probabilities_of ?rows)" by (rule probabilities_of_sampleable)
  with False show ?thesis
    by (auto simp: get_markov_probabilities_def Let_def sampleable_Nil next_fault_def
        split: prod.splits)
qed

lemma get_probabilities_sampleable:
  "store_invariant (working cn) \<Longrightarrow> sampleable (fst (get_probabilities c cn))"
  by (simp add: get_probabilities_def Let_def sampleable_Nil get_markov_probabilities_sampleable)

lemma get_overall_probabilities_sampleable:
  assumes "store_invariant (working cn)"
  shows "sampleable (fst (get_overall_probabilities cn))"
proof -
  from assms have "\<forall>(s, f) \<in> set (overall_frequencies (working cn)). length s = 1 \<and> 0 < f"
    by (simp add: store_invariant_def)
  then have "sampleable (probabilities_of (overall_frequencies (working cn)))"
    by (rule probabilities_of_sampleable)
  then show ?thesis
    by (auto simp: get_overall_probabilities_def sampleable_Nil next_fault_def split: prod.splits)
qed

lemma backoff_sampleable:
  "sampleable probs \<Longrightarrow> store_invariant (working cn) \<Longrightarrow>
     backoff ctx probs cn = (ctx', probs', cn') \<Longrightarrow> sampleable probs'"
proof (induction ctx arbitrary: probs cn)
  case Nil
  then show ?case by (simp add: backoff.simps)
next
  case (Cons x xs)
  show ?case
  proof (cases "probs = [] \<and> xs \<noteq> []")
    case True
    obtain p1 cn1 where g: "get_probabilities xs cn = (p1, cn1)"
      by (cases "get_probabilities xs cn")
    have "backoff (x # xs) probs cn = backoff xs p1 cn1"
      using True g by (subst backoff.simps) simp
    with Cons.prems have b: "backoff xs p1 cn1 = (ctx', probs', cn')" by simp
    from get_probabilities_sampleable [OF Cons.prems(2), of xs] g have "sampleable p1" by simp
    moreover from get_probabilities_state [OF g] Cons.prems(2)
    have "store_invariant (working cn1)" by simp
    ultimately show ?thesis using b by (rule Cons.IH)
  next
    case False
    then have "backoff (x # xs) probs cn = (x # xs, probs, cn)"
      by (subst backoff.simps) auto
    with Cons.prems show ?thesis by simp
  qed
qed

lemma select_distribution_sampleable:
  assumes "store_invariant (working cn)"
    and "select_distribution ctx cn = (ctx', probs, cn')"
  shows "sampleable probs \<and> working cn' = working cn"
proof -
  obtain p0 cn1 where g: "get_probabilities ctx cn = (p0, cn1)"
    by (cases "get_probabilities ctx cn")
  obtain c1 p1 cn2 where b: "backoff ctx p0 cn1 = (c1, p1, cn2)"
    by (cases "backoff ctx p0 cn1")
  obtain ov cn3 where o: "get_overall_probabilities cn2 = (ov, cn3)"
    by (cases "get_overall_probabilities cn2")
  from get_probabilities_state [OF g] have w1: "working cn1 = working cn" by simp
  from backoff_state [OF b] w1 have w2: "working cn2 = working cn" by simp
  from get_overall_probabilities_state [OF o] w2 have w3: "working cn3 = working cn" by simp
  from get_probabilities_sampleable [OF assms(1), of ctx] g have "sampleable p0" by simp
  moreover from assms(1) w1 have "store_invariant (working cn1)" by simp
  ultimately have s1: "sampleable p1" using b by (rule backoff_sampleable)
  from assms(1) w2 have "store_invariant (working cn2)" by simp
  from get_overall_probabilities_sampleable [OF this] o have s3: "sampleable ov" by simp
  from assms(2) g b o have "(ctx', probs, cn') = (if p1 = [] then (c1, ov, cn3) else (c1, p1, cn2))"
    by (cases "p1 = []") (simp_all add: select_distribution_def)
  with s1 s3 w2 w3 show ?thesis by (cases "p1 = []") simp_all
qed

lemma length_accumulate_from: "length (accumulate_from a ws) = length ws"
  by (induction ws arbitrary: a) auto

lemma length_accumulate: "length (accumulate ws) = length ws"
  by (cases ws) (simp_all add: accumulate_def length_accumulate_from)

lemma accumulate_from_pos:
  "0 < acc \<Longrightarrow> \<forall>w \<in> set ws. 0 < w \<Longrightarrow> \<forall>c \<in> set (accumulate_from acc ws). 0 < c"
proof (induction ws arbitrary: acc)
  case Nil
  then show ?case by simp
next
  case (Cons w ws)
  then have "0 < float_add acc w" by (intro float_add_pos) simp_all
  with Cons show ?case by simp
qed

lemma accumulate_pos:
  "\<forall>w \<in> set ws. 0 < w \<Longrightarrow> \<forall>c \<in> set (accumulate ws). 0 < c"
  using accumulate_from_pos [of "hd ws" "tl ws"]
  by (cases ws) (simp_all add: accumulate_def)

lemma bisect_bounds:
  "lo \<le> hi \<Longrightarrow> lo \<le> bisect a x lo hi \<and> bisect a x lo hi \<le> hi"
proof (induction a x lo hi rule: bisect.induct)
  case (1 a x lo hi)
  show ?case
  proof (cases "lo < hi")
    case False
    with "1.prems" show ?thesis by (subst (1 2) bisect.simps) simp
  next
    case True
    let ?mid = "(lo + hi) div 2"
    from True have m: "lo \<le> ?mid" "?mid < hi" by auto
    show ?thesis
    proof (cases "x < a ! ?mid")
      case l: True
      from "1.IH"(1) [OF True refl l] m
      have "lo \<le> bisect a x lo ?mid \<and> bisect a x lo ?mid \<le> ?mid" by simp
      moreover have "bisect a x lo hi = bisect a x lo ?mid"
        using True l by (subst bisect.simps) (simp add: Let_def)
      ultimately show ?thesis using m by simp
    next
      case r: False
      from "1.IH"(2) [OF True refl r] m
      have "?mid + 1 \<le> bisect a x (?mid + 1) hi \<and> bisect a x (?mid + 1) hi \<le> hi" by simp
      moreover have "bisect a x lo hi = bisect a x (?mid + 1) hi"
        using True r by (subst bisect.simps) (simp add: Let_def)
      ultimately show ?thesis using m by simp
    qed
  qed
qed

lemma choices_sampleable:
  assumes "probs \<noteq> []" and "sampleable probs"
  shows "\<exists>i < length probs. choices (map fst probs) (map snd probs) u = Inr (fst (probs ! i))"
proof -
  let ?ws = "map snd probs"
  let ?cum = "accumulate ?ws"
  let ?total = "float_add (last ?cum) 0"
  have len: "length ?cum = length probs"
    by (simp add: length_accumulate)
  with assms(1) have ne: "?cum \<noteq> []" by auto
  from assms(2) have "\<forall>w \<in> set ?ws. 0 < w" by (auto simp: sampleable_def)
  then have "\<forall>c \<in> set ?cum. 0 < c" by (rule accumulate_pos)
  with ne have "0 < last ?cum" using last_in_set by blast
  then have tot: "0 < ?total" by (intro float_add_pos) simp_all
  let ?i = "bisect ?cum (float_mul u ?total) 0 (length probs - 1)"
  from bisect_bounds [of 0 "length probs - 1" ?cum "float_mul u ?total"] assms(1)
  have i: "?i < length probs" by (cases probs) auto
  have "choices (map fst probs) ?ws u = Inr (map fst probs ! ?i)"
    using len ne tot by (simp add: choices_def Let_def)
  with i show ?thesis by (intro exI [of _ ?i]) simp
qed

lemma generate_step_ok:
  assumes "store_invariant (working (conn st))"
  shows "\<exists>st' sym. generate_step rnd st = Inr st' \<and> result st' = result st @ sym
           \<and> length sym = 1 \<and> working (conn st') = working (conn st)"
proof -
  obtain ctx probs cn where s: "select_distribution (current_context st) (conn st) = (ctx, probs, cn)"
    by (cases "select_distribution (current_context st) (conn st)")
  from select_distribution_sampleable [OF assms s]
  have sp: "sampleable probs" and w: "working cn = working (conn st)" by simp_all
  show ?thesis
  proof (cases "probs = []")
    case True
    with s w show ?thesis by (simp add: generate_step_def)
  next
    case False
    from choices_sampleable [OF False sp] obtain i where i: "i < length probs"
      and c: "choices (map fst probs) (map snd probs) (rnd (draws st)) = Inr (fst (probs ! i))"
      by blast
    from i have "probs ! i \<in> set probs" by simp
    with sp have "length (fst (probs ! i)) = 1"
      by (cases "probs ! i") (auto simp: sampleable_def)
    with s w False c show ?thesis by (simp add: generate_step_def unzip_items_def)
  qed
qed

lemma generate_loop_ok:
  "store_invariant (working (conn st)) \<Longrightarrow>
     \<exists>st' out. generate_loop rnd k st = Inr st' \<and> result st' = result st @ out \<and> length out = k"
proof (induction k arbitrary: st)
  case 0
  then show ?case by simp
next
  case (Suc k)
  from generate_step_ok [OF Suc.prems, of rnd] obtain st1 sym where
    s: "generate_step rnd st = Inr st1" "result st1 = result st @ sym" "length sym = 1"
    "working (conn st1) = working (conn st)"
    by blast
  with Suc.prems have "store_invariant (working (conn st1))" by simp
  from Suc.IH [OF this] obtain st' out where
    "generate_loop rnd k st1 = Inr st'" "result st' = result st1 @ out" "length out = k"
    by blast
  with s show ?case by (intro exI [of _ st'] exI [of _ "sym @ out"]) simp
qed

lemma py_tail_min: "py_tail (min (length s) 13) s = drop (length s - min (length s) 13) s"
proof (cases "s = []")
  case True
  then show ?thesis by (simp add: py_tail_def)
next
  case False
  then have "min (length s) 13 \<noteq> 0" by (cases s) auto
  then show ?thesis by (simp only: py_tail_def if_False)
qed

text \<open>
  C7. On an open connection to a store that satisfies its invariant (one-character
  symbols, positive counts, unique keys), for every seed, every length
  \<open>len \<ge> 0\<close>, every schedule of storage failures and every sequence of random
  values, \<open>generate_text\<close> returns the seed followed by exactly \<open>len\<close>
  characters, one per iteration; the context it starts from is the last
  \<open>min(len(seed), 13)\<close> characters of the seed.
\<close>

theorem generate_text_seed_and_length:
  assumes "store_invariant (working cn)" and "0 \<le> len"
  shows "(\<exists>out. generate_text rnd cn seed len = Inr (seed @ out) \<and> int (length out) = len)
    \<and> current_context (initial_state seed cn) = drop (length seed - min (length seed) 13) seed
    \<and> length (current_context (initial_state seed cn)) = min (length seed) 13"
proof (intro conjI)
  from assms(1) have "store_invariant (working (conn (initial_state seed cn)))"
    by (simp add: initial_state_def)
  from generate_loop_ok [OF this, of rnd "nat len"] obtain st' out where
    "generate_loop rnd (nat len) (initial_state seed cn) = Inr st'"
    "result st' = result (initial_state seed cn) @ out" "length out = nat len"
    by blast
  with assms(2) show "\<exists>out. generate_text rnd cn seed len = Inr (seed @ out) \<and> int (length out) = len"
    by (intro exI [of _ out]) (simp add: generate_text_def initial_state_def)
next
  show "current_context (initial_state seed cn) = drop (length seed - min (length seed) 13) seed"
    by (simp add: initial_state_def py_tail_min)
next
  show "length (current_context (initial_state seed cn)) = min (length seed) 13"
    by (simp add: initial_state_def py_tail_min)
qed

lemma demo_store_invariant: "store_invariant (working (demo_connection fs))"
  by (simp add: store_invariant_def demo_connection_def demo_tables_def row_key_def)

lemma generate_text_run:
  "generate_text (\<lambda>k. if even k then 3 / 4 else 1 / 5) (demo_connection [])
      [1040, 1041, 1042, 1043, 1044, 1045, 1046, 1047, 1048, 1049, 1050, 1051, 1052, 1040, 1084] 3
   = Inr ([1040, 1041, 1042, 1043, 1044, 1045, 1046, 1047, 1048, 1049, 1050, 1051, 1052, 1040, 1084]
          @ [1099, 1083, 1072])"
  by code_simp

text \<open>
  A run with a seed of 15 characters: the three characters are appended to the whole
  seed, and the first context is the last 13 characters of the seed.
\<close>

theorem generate_text_seed_and_length_witness:
  "generate_text (\<lambda>k. if even k then 3 / 4 else 1 / 5) (demo_connection [])
      [1040, 1041, 1042, 1043, 1044, 1045, 1046, 1047, 1048, 1049, 1050, 1051, 1052, 1040, 1084] 3
   = Inr ([1040, 1041, 1042, 1043, 1044, 1045, 1046, 1047, 1048, 1049, 1050, 1051, 1052, 1040, 1084]
          @ [1099, 1083, 1072])
   \<and> current_context (initial_state
        [1040, 1041, 1042, 1043, 1044, 1045, 1046, 1047, 1048, 1049, 1050, 1051, 1052, 1040, 1084]
        (demo_connection []))
     = [1042, 1043, 1044, 1045, 1046, 1047, 1048, 1049, 1050, 1051, 1052, 1040, 1084]"
proof -
  let ?seed = "[1040, 1041, 1042, 1043, 1044, 1045, 1046, 1047, 1048, 1049, 1050, 1051, 1052,
                1040, 1084] :: ustring"
  let ?rnd = "\<lambda>k :: nat. if even k then 3 / 4 else 1 / 5 :: rat"
  note w = generate_text_seed_and_length [OF demo_store_invariant [of "[]"],
      where len = 3 and rnd = ?rnd and seed = ?seed]
  from w obtain out where "generate_text ?rnd (demo_connection []) ?seed 3 = Inr (?seed @ out)"
    and "int (length out) = 3"
    by auto
  with generate_text_run have r: "out = [1099, 1083, 1072]" by simp
  from w have "current_context (initial_state ?seed (demo_connection []))
      = drop (length ?seed - min (length ?seed) 13) ?seed"
    by simp
  then have "current_context (initial_state ?seed (demo_connection []))
      = [1042, 1043, 1044, 1045, 1046, 1047, 1048, 1049, 1050, 1051, 1052, 1040, 1084]"
    by simp
  with generate_text_run show ?thesis by blast
qed

subsection \<open>The sampler\<close>





subsection \<open>Generation: the weights handed to the sampler\<close>


















end
